theory Spec2Isabelle
  imports Complex_Main "HOL-Library.Word"
begin

section \<open>Data model\<close>

text \<open>
  JavaScript numbers are modelled as exact reals: rounding of the binary floating point
  format, NaN and the infinities are left out. The bytes of a \<open>Uint8ClampedArray\<close>
  are 8-bit words. The one place where NaN is modelled is the run-time level of stages 1
  and 2 of the pipeline, where a kernel row that is too short produces it.

  \<open>KernelMatrix\<close> is the tuple type of \<open>types.ts\<close>: three rows of three numbers.
\<close>

type_synonym Row = "real \<times> real \<times> real"
type_synonym KernelMatrix = "Row \<times> Row \<times> Row"

text \<open>
  Indexing a three-element tuple, \<open>t[i]\<close>. Every loop of the source that indexes a
  kernel runs over the constants 0, 1, 2, so the last branch is the index 2.
\<close>

definition at3 :: "'a \<times> 'a \<times> 'a \<Rightarrow> nat \<Rightarrow> 'a" where
  "at3 t i = (case t of (a, b, c) \<Rightarrow> if i = 0 then a else if i = 1 then b else c)"

record ProcessingOptions =
  useGrayscale :: bool
  useReLU :: bool
  normalize_opt :: bool

text \<open>
  \<open>ImageData\<close>: \<open>data\<close> holds four bytes (R, G, B, A) for each pixel, row by row. The
  browser type guarantees \<open>data.length = 4 * width * height\<close>; that is \<open>wf_image\<close>.
\<close>

record ImageData =
  width :: nat
  height :: nat
  data :: "8 word list"

definition wf_image :: "ImageData \<Rightarrow> bool" where
  "wf_image img \<longleftrightarrow> length (data img) = 4 * width img * height img"

definition IDENTITY_KERNEL :: KernelMatrix where
  "IDENTITY_KERNEL = ((0, 0, 0), (0, 1, 0), (0, 0, 0))"

section \<open>ConvolutionEngine: \<open>applyConvolution\<close>\<close>

text \<open>
  Reading element \<open>i\<close> of a byte array as a number. JavaScript reads an index beyond
  the array as \<open>undefined\<close>; the model gives such a read no meaning. In a well-formed
  image none occurs: the bounds test of the kernel loop and the length of the output array
  see to it (\<open>tap_read_in_range\<close>, \<open>pixel_start_in_range\<close>), and every statement
  about the engine below is made for well-formed images.
\<close>

definition rd :: "8 word list \<Rightarrow> nat \<Rightarrow> real" where
  "rd a i = real (unat (a ! i))"

text \<open>
  Storing a number into a \<open>Uint8ClampedArray\<close> (ECMAScript ToUint8Clamp): clamp to
  [0, 255], then round to the nearest integer, a tie going to the even one.
\<close>

definition toUint8Clamp :: "real \<Rightarrow> 8 word" where
  "toUint8Clamp v =
     (if v \<le> 0 then 0
      else if 255 \<le> v then 255
      else let f = \<lfloor>v\<rfloor> in
        if of_int f + 1 / 2 < v then word_of_int (f + 1)
        else if v < of_int f + 1 / 2 then word_of_int f
        else if even f then word_of_int f else word_of_int (f + 1))"

text \<open>
  The body of the two kernel loops for one kernel position \<open>(ky, kx)\<close>: the running
  sums \<open>r, g, b\<close> are the state.
\<close>

definition tap ::
  "ImageData \<Rightarrow> KernelMatrix \<Rightarrow> nat \<Rightarrow> nat \<Rightarrow> int \<Rightarrow> int \<Rightarrow> real \<times> real \<times> real
     \<Rightarrow> real \<times> real \<times> real" where
  "tap img kern y x ky kx acc =
     (let py = int y + ky; px = int x + kx in
      if px \<ge> 0 \<and> px < int (width img) \<and> py \<ge> 0 \<and> py < int (height img) then
        let pixelIndex = nat ((py * int (width img) + px) * 4);
            weight = at3 (at3 kern (nat (ky + 1))) (nat (kx + 1))
        in case acc of (r, g, b) \<Rightarrow>
             (r + rd (data img) pixelIndex * weight,
              g + rd (data img) (pixelIndex + 1) * weight,
              b + rd (data img) (pixelIndex + 2) * weight)
      else acc)"

definition accumulate :: "ImageData \<Rightarrow> KernelMatrix \<Rightarrow> nat \<Rightarrow> nat \<Rightarrow> real \<times> real \<times> real" where
  "accumulate img kern y x =
     fold (\<lambda>ky. fold (\<lambda>kx. tap img kern y x ky kx) [-1, 0, 1]) [-1, 0, 1] (0, 0, 0)"

text \<open>Step 1 of the processing options: ReLU, or else the absolute value.\<close>

definition activation :: "ProcessingOptions \<Rightarrow> real \<times> real \<times> real \<Rightarrow> real \<times> real \<times> real" where
  "activation options rgb =
     (case rgb of (r, g, b) \<Rightarrow>
        if useReLU options then (max 0 r, max 0 g, max 0 b)
        else (\<bar>r\<bar>, \<bar>g\<bar>, \<bar>b\<bar>))"

text \<open>Step 2: the grayscale conversion.\<close>

definition grayscale :: "ProcessingOptions \<Rightarrow> real \<times> real \<times> real \<Rightarrow> real \<times> real \<times> real" where
  "grayscale options rgb =
     (case rgb of (r, g, b) \<Rightarrow>
        if useGrayscale options then (let avg = (r + g + b) / 3 in (avg, avg, avg))
        else (r, g, b))"

text \<open>The four stores of one pixel. A store beyond the end of a typed array is ignored.\<close>

definition store_pixel :: "8 word list \<Rightarrow> nat \<Rightarrow> real \<times> real \<times> real \<Rightarrow> 8 word list" where
  "store_pixel output outputIndex rgb =
     (case rgb of (r, g, b) \<Rightarrow>
        output[outputIndex := toUint8Clamp r,
               outputIndex + 1 := toUint8Clamp g,
               outputIndex + 2 := toUint8Clamp b,
               outputIndex + 3 := 255])"

text \<open>The numbers stored for the pixel \<open>(x, y)\<close>, before the clamped conversion.\<close>

definition pixel_value ::
  "ImageData \<Rightarrow> KernelMatrix \<Rightarrow> ProcessingOptions \<Rightarrow> nat \<Rightarrow> nat \<Rightarrow> real \<times> real \<times> real" where
  "pixel_value img kern options y x =
     grayscale options (activation options (accumulate img kern y x))"

definition pixel_body ::
  "ImageData \<Rightarrow> KernelMatrix \<Rightarrow> ProcessingOptions \<Rightarrow> nat \<Rightarrow> nat \<Rightarrow> 8 word list \<Rightarrow> 8 word list" where
  "pixel_body img kern options y x output =
     store_pixel output ((y * width img + x) * 4) (pixel_value img kern options y x)"

text \<open>The loops over \<open>y\<close> and \<open>x\<close>, starting from the zero-filled output array.\<close>

definition conv_pass :: "ImageData \<Rightarrow> KernelMatrix \<Rightarrow> ProcessingOptions \<Rightarrow> 8 word list" where
  "conv_pass img kern options =
     fold (\<lambda>y. fold (\<lambda>x. pixel_body img kern options y x) [0..<width img])
       [0..<height img] (replicate (length (data img)) 0)"

text \<open>
  Step 3, first loop: \<open>for (i = 0; i < output.length; i += 4)\<close> visits
  \<open>i = 4 * p\<close> for \<open>p < \<lceil>length / 4\<rceil>\<close>; the state is \<open>(min, max)\<close>.
\<close>

definition pixel_starts :: "8 word list \<Rightarrow> nat list" where
  "pixel_starts output = map (\<lambda>p. 4 * p) [0..<(length output + 3) div 4]"

definition scan_step :: "8 word list \<Rightarrow> nat \<Rightarrow> real \<times> real \<Rightarrow> real \<times> real" where
  "scan_step output i mm =
     (case mm of (mn, mx) \<Rightarrow>
        (min mn (min (rd output i) (min (rd output (i + 1)) (rd output (i + 2)))),
         max mx (max (rd output i) (max (rd output (i + 1)) (rd output (i + 2))))))"

definition scan_min_max :: "8 word list \<Rightarrow> real \<times> real" where
  "scan_min_max output = fold (scan_step output) (pixel_starts output) (255, 0)"

text \<open>Step 3, second loop: the rescaling of the three colour bytes of each pixel.\<close>

definition rescale_step :: "real \<Rightarrow> real \<Rightarrow> nat \<Rightarrow> 8 word list \<Rightarrow> 8 word list" where
  "rescale_step mn rng i output =
     (let o1 = output[i := toUint8Clamp (((rd output i - mn) / rng) * 255)];
          o2 = o1[i + 1 := toUint8Clamp (((rd o1 (i + 1) - mn) / rng) * 255)]
      in o2[i + 2 := toUint8Clamp (((rd o2 (i + 2) - mn) / rng) * 255)])"

definition normalize_pass :: "8 word list \<Rightarrow> 8 word list" where
  "normalize_pass output =
     (case scan_min_max output of (mn, mx) \<Rightarrow>
        let rng = mx - mn in
        if rng > 0 then fold (rescale_step mn rng) (pixel_starts output) output
        else output)"

text \<open>\<open>kernel.flat()\<close> on the tuple of rows.\<close>

definition flat :: "KernelMatrix \<Rightarrow> real list" where
  "flat kern = (case kern of ((a, b, c), (d, e, f), (g, h, i)) \<Rightarrow> [a, b, c, d, e, f, g, h, i])"

text \<open>
  The whole function. \<open>k\<close> and \<open>kSum\<close> are computed as in the source, and as in the
  source nothing reads them afterwards.
\<close>

definition applyConvolution :: "ImageData \<Rightarrow> KernelMatrix \<Rightarrow> ProcessingOptions \<Rightarrow> ImageData" where
  "applyConvolution imageData kern options =
     (let k = flat kern;
          kSum = foldl (\<lambda>a b. a + b) 0 k;
          output = conv_pass imageData kern options;
          output' = (if normalize_opt options then normalize_pass output else output)
      in \<lparr>width = width imageData, height = height imageData, data = output'\<rparr>)"

subsection \<open>The sum of the specification\<close>

text \<open>
  The words of the specification for the convolution sum: \<open>input[py][px][channel]\<close> is
  byte \<open>channel\<close> of the pixel in row \<open>py\<close> and column \<open>px\<close>; a neighbour position
  is inside the image when both indices are; a term outside contributes zero.
\<close>

definition in_bounds :: "ImageData \<Rightarrow> int \<Rightarrow> int \<Rightarrow> bool" where
  "in_bounds img py px \<longleftrightarrow> px \<ge> 0 \<and> px < int (width img) \<and> py \<ge> 0 \<and> py < int (height img)"

definition input_at :: "ImageData \<Rightarrow> int \<Rightarrow> int \<Rightarrow> nat \<Rightarrow> real" where
  "input_at img py px c = rd (data img) (nat ((py * int (width img) + px) * 4) + c)"

definition conv_term ::
  "ImageData \<Rightarrow> KernelMatrix \<Rightarrow> nat \<Rightarrow> nat \<Rightarrow> nat \<Rightarrow> int \<Rightarrow> int \<Rightarrow> real" where
  "conv_term img kern y x c ky kx =
     (if in_bounds img (int y + ky) (int x + kx)
      then at3 (at3 kern (nat (ky + 1))) (nat (kx + 1)) * input_at img (int y + ky) (int x + kx) c
      else 0)"

section \<open>PatchForwardPipeline: the stages of \<open>StructureVisualizer\<close>\<close>

text \<open>
  The patch is a \<open>number[][]\<close>, of any shape. \<open>inputPatch[i]?.[j] || 0\<close> reads a
  missing row or a missing cell as 0 (and a cell that is 0 as 0).
\<close>

definition cell :: "real list list \<Rightarrow> nat \<Rightarrow> nat \<Rightarrow> real" where
  "cell inputPatch i j =
     (if i < length inputPatch \<and> j < length (inputPatch ! i) then inputPatch ! i ! j else 0)"

record FeatureMap =
  map_fm :: "real list list"
  rawMap :: "real list list"

text \<open>The assignment \<open>m[y][x] = v\<close> on an array of arrays.\<close>

definition set2 :: "real list list \<Rightarrow> nat \<Rightarrow> nat \<Rightarrow> real \<Rightarrow> real list list" where
  "set2 m y x v = m[y := (m ! y)[x := v]]"

text \<open>Stage 1. The two inner loops, over \<open>ky\<close> and \<open>kx\<close>, with the running \<open>sum\<close>.\<close>

definition patch_sum :: "real list list \<Rightarrow> KernelMatrix \<Rightarrow> nat \<Rightarrow> nat \<Rightarrow> real" where
  "patch_sum inputPatch kern y x =
     fold (\<lambda>ky. fold (\<lambda>kx sum.
             let val = cell inputPatch (y + ky) (x + kx); w = at3 (at3 kern ky) kx
             in sum + val * w) [0..<3]) [0..<3] 0"

definition featureMap :: "real list list \<Rightarrow> KernelMatrix \<Rightarrow> bool \<Rightarrow> FeatureMap" where
  "featureMap inputPatch kern relu =
     fold (\<lambda>y. fold (\<lambda>x fm.
             let sum = patch_sum inputPatch kern y x
             in \<lparr>map_fm = set2 (map_fm fm) y x (if relu then max 0 sum else sum),
                 rawMap = set2 (rawMap fm) y x sum\<rparr>) [0..<2]) [0..<2]
       \<lparr>map_fm = [[0, 0], [0, 0]], rawMap = [[0, 0], [0, 0]]\<rparr>"

text \<open>
  \<open>Math.max(...xs)\<close> for a non-empty \<open>xs\<close>. With no argument JavaScript returns
  \<open>-Infinity\<close>, which is no real number; the source calls it on four values.
\<close>

fun Math_max :: "real list \<Rightarrow> real" where
  "Math_max (x # xs) = fold (\<lambda>v highest. if v > highest then v else highest) xs x"

text \<open>
  Stage 2. \<open>poolingMode\<close> is a string at run time; the type \<open>PoolingMode\<close> names
  \<open>'max'\<close> and \<open>'average'\<close>, and the last \<open>return\<close> takes every other value.
\<close>

definition pooledValue :: "FeatureMap \<Rightarrow> string \<Rightarrow> real" where
  "pooledValue fm poolingMode =
     (let vals = [map_fm fm ! 0 ! 0, map_fm fm ! 0 ! 1, map_fm fm ! 1 ! 0, map_fm fm ! 1 ! 1] in
      if poolingMode = ''max'' then Math_max vals
      else if poolingMode = ''average'' then foldl (\<lambda>a b. a + b) 0 vals / 4
      else vals ! 0)"

text \<open>
  The remainder operator \<open>n % d\<close> of JavaScript, for \<open>d \<noteq> 0\<close>: the quotient is
  truncated towards zero, so the result has the sign of \<open>n\<close>.
\<close>

definition js_rem :: "real \<Rightarrow> real \<Rightarrow> real" where
  "js_rem n d = n - d * of_int (if n / d \<ge> 0 then \<lfloor>n / d\<rfloor> else \<lceil>n / d\<rceil>)"

text \<open>Stage 3.\<close>

definition flatVector :: "real \<Rightarrow> real list" where
  "flatVector p =
     (let v1 = p;
          v2 = \<bar>255 - p\<bar>;
          v3 = js_rem (p * 1.5) 255;
          v4 = p / 2
      in [v1, v2, v3, v4])"

text \<open>Stage 4.\<close>

definition fcWeights :: "real list list" where
  "fcWeights =
     [[ 0.8, -0.5,  0.2,  0.1],
      [-0.4,  0.9, -0.1, -0.3],
      [ 0.5, -0.2,  0.8,  0.2],
      [ 0.1,  0.3,  0.1,  0.9]]"

definition fcBiases :: "real list" where
  "fcBiases = [10, -5, 0, 5]"

definition logits :: "real list \<Rightarrow> real list" where
  "logits fv =
     fold (\<lambda>c result.
        result[c := fold (\<lambda>i sum. sum + fv ! i * fcWeights ! i ! c) [0..<4] (fcBiases ! c)])
       [0..<4] [0, 0, 0, 0]"

text \<open>Stage 5. On the empty array both \<open>map\<close> calls return the empty array.\<close>

definition probabilities :: "real list \<Rightarrow> real list" where
  "probabilities ls =
     (if ls = [] then []
      else
        let maxLogit = Math_max ls;
            exps = map (\<lambda>l. exp ((l - maxLogit) / 100)) ls;
            sumExps = foldl (\<lambda>a b. a + b) 0 exps
        in map (\<lambda>e. (e / sumExps) * 100) exps)"

subsection \<open>Stages 1 and 2 on run-time values\<close>

text \<open>
  The static types of the component's props are not checked when it is called: at run time
  the kernel, like the patch, is an array of arrays of any shape. On a missing row
  \<open>kernel[ky]\<close> is \<open>undefined\<close>, and reading \<open>[kx]\<close> from it throws a
  \<open>TypeError\<close>, the one exception of these two stages. On a short row \<open>kernel[ky][kx]\<close>
  is \<open>undefined\<close>, and a number times \<open>undefined\<close> is \<open>NaN\<close>. So here a number is
  a real or \<open>NaN\<close> (\<open>None\<close>), and stage 1 returns its feature map or the error.

  Only the computation of the stages is modelled. The display code of the component, which
  reads \<open>data[0]\<close> and \<open>inputPatch[startY][startX]\<close> without a guard, is not.
\<close>

datatype js_error = TypeError

type_synonym num = "real option"

text \<open>\<open>val * w\<close> and \<open>sum + t\<close>, where \<open>val\<close> is a number: \<open>NaN\<close> spreads.\<close>

definition mul_num :: "real \<Rightarrow> num \<Rightarrow> num" where
  "mul_num val w = (case w of None \<Rightarrow> None | Some v \<Rightarrow> Some (val * v))"

definition add_num :: "num \<Rightarrow> num \<Rightarrow> num" where
  "add_num a b = (case a of None \<Rightarrow> None | Some x \<Rightarrow> (case b of None \<Rightarrow> None | Some y \<Rightarrow> Some (x + y)))"

text \<open>\<open>kernel[ky][kx]\<close>.\<close>

definition weight_rt :: "real list list \<Rightarrow> nat \<Rightarrow> nat \<Rightarrow> js_error + num" where
  "weight_rt kern ky kx =
     (if ky < length kern
      then Inr (if kx < length (kern ! ky) then Some (kern ! ky ! kx) else None)
      else Inl TypeError)"

text \<open>A loop whose body can throw: the first exception ends it.\<close>

fun fold_err :: "('a \<Rightarrow> 's \<Rightarrow> js_error + 's) \<Rightarrow> 'a list \<Rightarrow> 's \<Rightarrow> js_error + 's" where
  "fold_err f [] s = Inr s"
| "fold_err f (x # xs) s = (case f x s of Inl e \<Rightarrow> Inl e | Inr s' \<Rightarrow> fold_err f xs s')"

text \<open>Stage 1, as \<open>patch_sum\<close> and \<open>featureMap\<close> above, on these values.\<close>

definition patch_sum_rt :: "real list list \<Rightarrow> real list list \<Rightarrow> nat \<Rightarrow> nat \<Rightarrow> js_error + num" where
  "patch_sum_rt inputPatch kern y x =
     fold_err (\<lambda>ky. fold_err (\<lambda>kx sum.
         let val = cell inputPatch (y + ky) (x + kx) in
         case weight_rt kern ky kx of
           Inl e \<Rightarrow> Inl e
         | Inr w \<Rightarrow> Inr (add_num sum (mul_num val w))) [0..<3]) [0..<3] (Some 0)"

record FeatureMap_rt =
  map_rt :: "num list list"
  rawMap_rt :: "num list list"

definition featureMap_rt :: "real list list \<Rightarrow> real list list \<Rightarrow> bool \<Rightarrow> js_error + FeatureMap_rt" where
  "featureMap_rt inputPatch kern relu =
     fold_err (\<lambda>y. fold_err (\<lambda>x fm.
         case patch_sum_rt inputPatch kern y x of
           Inl e \<Rightarrow> Inl e
         | Inr sm \<Rightarrow>
             Inr \<lparr>map_rt = (map_rt fm)[y := (map_rt fm ! y)
                           [x := (if relu then map_option (max 0) sm else sm)]],
                  rawMap_rt = (rawMap_rt fm)[y := (rawMap_rt fm ! y)[x := sm]]\<rparr>) [0..<2]) [0..<2]
       \<lparr>map_rt = [[Some 0, Some 0], [Some 0, Some 0]],
        rawMap_rt = [[Some 0, Some 0], [Some 0, Some 0]]\<rparr>"

text \<open>\<open>Math.max\<close> is \<open>NaN\<close> as soon as one argument is.\<close>

definition Math_max_num :: "num list \<Rightarrow> num" where
  "Math_max_num vs = (if None \<in> set vs then None else Some (Math_max (map the vs)))"

text \<open>Stage 2, as \<open>pooledValue\<close> above.\<close>

definition pooledValue_rt :: "FeatureMap_rt \<Rightarrow> string \<Rightarrow> num" where
  "pooledValue_rt fm poolingMode =
     (let vals = [map_rt fm ! 0 ! 0, map_rt fm ! 0 ! 1, map_rt fm ! 1 ! 0, map_rt fm ! 1 ! 1] in
      if poolingMode = ''max'' then Math_max_num vals
      else if poolingMode = ''average''
        then map_option (\<lambda>s. s / 4) (foldl add_num (Some 0) vals)
      else vals ! 0)"

text \<open>
  For the comparison of the two levels: the 3\<times>3 tuple of a kernel that has its nine
  entries, a feature map of reals as one of run-time numbers, the feature map that is
  \<open>NaN\<close> everywhere, and the running sum of the kernel loops when no row is missing.
\<close>

definition kernel_tuple :: "real list list \<Rightarrow> KernelMatrix" where
  "kernel_tuple kern =
     ((kern ! 0 ! 0, kern ! 0 ! 1, kern ! 0 ! 2),
      (kern ! 1 ! 0, kern ! 1 ! 1, kern ! 1 ! 2),
      (kern ! 2 ! 0, kern ! 2 ! 1, kern ! 2 ! 2))"

definition lift_fm :: "FeatureMap \<Rightarrow> FeatureMap_rt" where
  "lift_fm fm = \<lparr>map_rt = map (map Some) (map_fm fm), rawMap_rt = map (map Some) (rawMap fm)\<rparr>"

definition nan_fm :: FeatureMap_rt where
  "nan_fm = \<lparr>map_rt = [[None, None], [None, None]], rawMap_rt = [[None, None], [None, None]]\<rparr>"

definition num_sum :: "real list list \<Rightarrow> real list list \<Rightarrow> nat \<Rightarrow> nat \<Rightarrow> num" where
  "num_sum inputPatch kern y x =
     fold (\<lambda>ky. fold (\<lambda>kx sum.
         add_num sum (mul_num (cell inputPatch (y + ky) (x + kx))
           (if kx < length (kern ! ky) then Some (kern ! ky ! kx) else None))) [0..<3]) [0..<3] (Some 0)"

subsection \<open>Notions of the specification for the pipeline\<close>

text \<open>
  The 4\<times>4 grid that a patch of any shape is read as: a cell the patch does not have
  is 0.
\<close>

definition pad4 :: "real list list \<Rightarrow> real list list" where
  "pad4 inputPatch = map (\<lambda>i. map (\<lambda>j. cell inputPatch i j) [0..<4]) [0..<4]"

text \<open>
  The modulo of mathematics on the reals, \<open>a mod m\<close> for \<open>m > 0\<close>: the quotient is
  rounded down, so the result lies in \<open>[0, m)\<close>.
\<close>

definition floor_mod :: "real \<Rightarrow> real \<Rightarrow> real" where
  "floor_mod a m = a - m * of_int \<lfloor>a / m\<rfloor>"

subsection \<open>Notions of the specification for the normalisation\<close>

text \<open>The R, G and B bytes of a buffer: every byte but each fourth one.\<close>

definition rgb_values :: "8 word list \<Rightarrow> 8 word list" where
  "rgb_values d = map (\<lambda>j. d ! j) (filter (\<lambda>j. j mod 4 \<noteq> 3) [0..<length d])"

definition flat_output :: "8 word list \<Rightarrow> bool" where
  "flat_output d \<longleftrightarrow> (\<forall>u \<in> set (rgb_values d). \<forall>v \<in> set (rgb_values d). u = v)"

text \<open>
  The invariant of the first normalisation loop after \<open>k\<close> pixels: \<open>min\<close> and \<open>max\<close>
  bound the R, G, B bytes seen so far, and each is its initial value or one of those bytes.
\<close>

definition scan_inv :: "8 word list \<Rightarrow> nat \<Rightarrow> real \<times> real \<Rightarrow> bool" where
  "scan_inv out k mm \<longleftrightarrow> (case mm of (mn, mx) \<Rightarrow>
     (\<forall>j<4 * k. j mod 4 \<noteq> 3 \<longrightarrow> mn \<le> rd out j \<and> rd out j \<le> mx)
     \<and> (mn = 255 \<or> (\<exists>j<4 * k. j mod 4 \<noteq> 3 \<and> rd out j = mn))
     \<and> (mx = 0 \<or> (\<exists>j<4 * k. j mod 4 \<noteq> 3 \<and> rd out j = mx)))"

section \<open>Arithmetic of bytes and of the loops\<close>

lemma unat_byte_le: "unat (w :: 8 word) \<le> 255"
  using unsigned_less[of w, where 'a=nat] by simp

lemma upt_rows: "[0..<Suc h * w] = [0..<h * w] @ map (\<lambda>x. x + h * w) [0..<w]"
proof -
  have "[0..<h * w + w] = [0..<h * w] @ [h * w..<h * w + w]"
    by (rule upt_add_eq_append) simp
  moreover have "map (\<lambda>x. x + h * w) [0..<w] = [h * w..<h * w + w]"
    using map_add_upt[of "h * w" w] by (simp add: add.commute)
  ultimately show ?thesis by (simp add: add.commute)
qed

lemma toUint8Clamp_nat: "n \<le> 255 \<Longrightarrow> toUint8Clamp (real n) = word_of_nat n"
proof -
  assume le: "n \<le> 255"
  have fl: "\<lfloor>real n\<rfloor> = int n" by simp
  show ?thesis
  proof (cases "n = 0 \<or> n = 255")
    case True then show ?thesis by (auto simp: toUint8Clamp_def)
  next
    case False
    with le have "0 < real n" "\<not> 255 \<le> real n" by auto
    then show ?thesis unfolding toUint8Clamp_def Let_def fl by simp
  qed
qed

lemma toUint8Clamp_byte: "toUint8Clamp (real (unat (w :: 8 word))) = w"
  using toUint8Clamp_nat[OF unat_byte_le[of w]] by simp

lemma toUint8Clamp_0: "toUint8Clamp 0 = 0"
  by (simp add: toUint8Clamp_def)

lemma toUint8Clamp_255: "toUint8Clamp 255 = 255"
  by (simp add: toUint8Clamp_def)

lemma fold_rows:
  "fold (\<lambda>y. fold (\<lambda>x. B y x) [0..<w]) [0..<h] = fold (\<lambda>p. B (p div w) (p mod w)) [0..<h * w]"
proof (induction h)
  case 0 show ?case by simp
next
  case (Suc h)
  have "fold (\<lambda>p. B (p div w) (p mod w)) (map (\<lambda>x. x + h * w) [0..<w]) = fold (\<lambda>x. B h x) [0..<w]"
    unfolding fold_map by (rule ext, rule fold_cong) (auto simp: comp_def)
  moreover have "fold (\<lambda>y. fold (\<lambda>x. B y x) [0..<w]) [0..<Suc h]
     = fold (\<lambda>x. B h x) [0..<w] \<circ> fold (\<lambda>y. fold (\<lambda>x. B y x) [0..<w]) [0..<h]"
    by simp
  ultimately show ?case unfolding upt_rows fold_append using Suc.IH by simp
qed

lemma fold_blocks:
  assumes len: "\<And>p out. length (g p out) = length out"
    and other: "\<And>p out j. j div 4 \<noteq> p \<Longrightarrow> g p out ! j = out ! j"
    and own: "\<And>p out j. j div 4 = p \<Longrightarrow> j < length out \<Longrightarrow> g p out ! j = h p j (out ! j)"
  shows "distinct ps \<Longrightarrow> j < length out \<Longrightarrow>
    fold g ps out ! j = (if j div 4 \<in> set ps then h (j div 4) j (out ! j) else out ! j)"
proof (induction ps arbitrary: out)
  case Nil show ?case by simp
next
  case (Cons p ps)
  have jl: "j < length (g p out)" using Cons.prems len by simp
  have d: "distinct ps" "p \<notin> set ps" using Cons.prems by auto
  have IH: "fold g ps (g p out) ! j = (if j div 4 \<in> set ps then h (j div 4) j (g p out ! j) else g p out ! j)"
    by (rule Cons.IH[OF d(1) jl])
  show ?case
  proof (cases "j div 4 = p")
    case True
    then show ?thesis using IH d(2) own[OF True] Cons.prems(2) by simp
  next
    case False
    then show ?thesis using IH other[OF False] by simp
  qed
qed

lemma fold_length:
  assumes "\<And>p out. length (g p out) = length out"
  shows "length (fold g ps out) = length out"
  by (induction ps arbitrary: out) (simp_all add: assms)

section \<open>The convolution pass in closed form\<close>

lemma store_pixel_length: "length (store_pixel out k rgb) = length out"
  by (cases rgb) (simp add: store_pixel_def)

lemma store_pixel_other: "j div 4 \<noteq> p \<Longrightarrow> store_pixel out (p * 4) rgb ! j = out ! j"
  by (cases rgb) (auto simp: store_pixel_def)

lemma store_pixel_own:
  assumes "j div 4 = p" "j < length out"
  shows "store_pixel out (p * 4) rgb ! j =
    (if j mod 4 = 3 then 255 else toUint8Clamp (at3 rgb (j mod 4)))"
proof -
  obtain r g b where rgb: "rgb = (r, g, b)" by (cases rgb) auto
  have j: "j = p * 4 + j mod 4" using assms(1) by (metis div_mult_mod_eq)
  have "j mod 4 < 4" by simp
  then consider "j mod 4 = 0" | "j mod 4 = 1" | "j mod 4 = 2" | "j mod 4 = 3" by linarith
  then show ?thesis
  proof cases
    case 1 with j have "j = p * 4" by simp
    with assms(2) 1 show ?thesis by (simp add: store_pixel_def rgb at3_def)
  next
    case 2 with j have "j = p * 4 + 1" by simp
    with assms(2) 2 show ?thesis by (simp add: store_pixel_def rgb at3_def)
  next
    case 3 with j have "j = p * 4 + 2" by simp
    with assms(2) 3 show ?thesis by (simp add: store_pixel_def rgb at3_def)
  next
    case 4 with j have "j = p * 4 + 3" by simp
    with assms(2) 4 show ?thesis by (simp add: store_pixel_def rgb)
  qed
qed

lemma conv_pass_flat:
  "conv_pass img kern options =
     fold (\<lambda>p out. store_pixel out (p * 4)
              (pixel_value img kern options (p div width img) (p mod width img)))
       [0..<height img * width img] (replicate (length (data img)) 0)"
  unfolding conv_pass_def fold_rows pixel_body_def pixel_value_def by simp

lemma conv_pass_length: "length (conv_pass img kern options) = length (data img)"
  unfolding conv_pass_flat by (simp add: fold_length store_pixel_length)

lemma conv_pass_nth:
  assumes wf: "wf_image img" and j: "j < length (data img)"
  shows "conv_pass img kern options ! j =
    (if j mod 4 = 3 then 255
     else toUint8Clamp (at3 (pixel_value img kern options (j div 4 div width img) (j div 4 mod width img)) (j mod 4)))"
proof -
  have p: "j div 4 \<in> set [0..<height img * width img]"
    using wf j by (simp add: wf_image_def mult.commute less_mult_imp_div_less)
  have jl: "j < length (replicate (length (data img)) (0 :: 8 word))" using j by simp
  show ?thesis
    unfolding conv_pass_flat
    using fold_blocks[where g = "\<lambda>p out. store_pixel out (p * 4)
              (pixel_value img kern options (p div width img) (p mod width img))"
        and h = "\<lambda>p j v. if j mod 4 = 3 then 255
     else toUint8Clamp (at3 (pixel_value img kern options (p div width img) (p mod width img)) (j mod 4))"
        and ps = "[0..<height img * width img]", OF store_pixel_length store_pixel_other store_pixel_own _ jl] p
    by simp
qed

lemma tap_eq:
  "tap img kern y x ky kx (r, g, b) =
     (r + conv_term img kern y x 0 ky kx, g + conv_term img kern y x 1 ky kx,
      b + conv_term img kern y x 2 ky kx)"
  by (simp add: tap_def conv_term_def in_bounds_def input_at_def Let_def)

lemma accumulate_eq:
  "accumulate img kern y x =
     (\<Sum>ky\<in>{-1, 0, 1}. \<Sum>kx\<in>{-1, 0, 1}. conv_term img kern y x 0 ky kx,
      \<Sum>ky\<in>{-1, 0, 1}. \<Sum>kx\<in>{-1, 0, 1}. conv_term img kern y x 1 ky kx,
      \<Sum>ky\<in>{-1, 0, 1}. \<Sum>kx\<in>{-1, 0, 1}. conv_term img kern y x 2 ky kx)"
  by (simp add: accumulate_def tap_eq)

lemma pixel_index_less:
  assumes "y < h" "x < (w::nat)"
  shows "y * w + x < h * w"
proof -
  have "y * w + x < y * w + w" using assms(2) by simp
  also have "\<dots> = Suc y * w" by simp
  also have "\<dots> \<le> h * w" using assms(1) by (intro mult_le_mono1) simp
  finally show ?thesis .
qed

lemma byte_index_less:
  assumes "wf_image img" "y < height img" "x < width img" "c < 4"
  shows "(y * width img + x) * 4 + c < length (data img)"
proof -
  have "y * width img + x < height img * width img"
    using assms(2,3) by (rule pixel_index_less)
  then show ?thesis using assms(1,4) by (simp add: wf_image_def mult.commute)
qed

lemma div4: "c < 4 \<Longrightarrow> (q * 4 + c) div 4 = q \<and> (q * 4 + c) mod 4 = (c::nat)"
  by simp

lemma conv_pass_pixel:
  assumes "wf_image img" "y < height img" "x < width img" "c < 4"
  shows "conv_pass img kern options ! ((y * width img + x) * 4 + c) =
    (if c = 3 then 255 else toUint8Clamp (at3 (pixel_value img kern options y x) c))"
proof -
  have "((y * width img + x) * 4 + c) div 4 = y * width img + x"
       "((y * width img + x) * 4 + c) mod 4 = c"
    using assms(4) div4[of c "y * width img + x"] by blast+
  moreover have "(y * width img + x) div width img = y" "(y * width img + x) mod width img = x"
    using assms(3) by simp_all
  ultimately show ?thesis
    using conv_pass_nth[OF assms(1) byte_index_less[OF assms], of kern options] by simp
qed

lemma rd_nonneg: "0 \<le> rd d i"
  unfolding rd_def by (rule of_nat_0_le_iff)

lemma toUint8Clamp_rd: "toUint8Clamp (rd d i) = d ! i"
  unfolding rd_def by (rule toUint8Clamp_byte)

lemma applyConvolution_dims:
  "width (applyConvolution img kern options) = width img"
  "height (applyConvolution img kern options) = height img"
  by (simp_all add: applyConvolution_def Let_def)

lemma applyConvolution_data:
  "data (applyConvolution img kern options) =
     (if normalize_opt options then normalize_pass (conv_pass img kern options)
      else conv_pass img kern options)"
  by (simp add: applyConvolution_def Let_def)

lemma identity_conv_term:
  "(\<Sum>ky\<in>{-1, 0, 1}. \<Sum>kx\<in>{-1, 0, 1}. conv_term img IDENTITY_KERNEL y x c ky kx) =
     (if in_bounds img (int y) (int x) then input_at img (int y) (int x) c else 0)"
  by (simp add: conv_term_def IDENTITY_KERNEL_def at3_def)

lemma identity_pixel_value:
  assumes "y < height img" "x < width img" "useReLU options" "\<not> useGrayscale options"
  shows "pixel_value img IDENTITY_KERNEL options y x =
     (rd (data img) ((y * width img + x) * 4),
      rd (data img) ((y * width img + x) * 4 + 1),
      rd (data img) ((y * width img + x) * 4 + 2))"
proof -
  have ib: "in_bounds img (int y) (int x)" using assms(1,2) by (simp add: in_bounds_def)
  note nn = rd_nonneg
  have ia: "input_at img (int y) (int x) c = rd (data img) ((y * width img + x) * 4 + c)" for c
    by (simp add: input_at_def nat_add_distrib nat_mult_distrib)
  show ?thesis
    unfolding pixel_value_def accumulate_eq identity_conv_term
    using ib assms(3,4) nn by (simp add: ia activation_def grayscale_def max_def)
qed

lemma identity_conv_pass_nth:
  assumes wf: "wf_image img" and j: "j < length (data img)"
    and o: "useReLU options" "\<not> useGrayscale options"
  shows "conv_pass img IDENTITY_KERNEL options ! j = (if j mod 4 = 3 then 255 else data img ! j)"
proof -
  let ?w = "width img"
  let ?p = "j div 4"
  have p: "?p < ?w * height img" using wf j by (simp add: wf_image_def less_mult_imp_div_less mult.commute)
  then have w0: "0 < ?w" by (cases "?w = 0") simp_all
  have x: "?p mod ?w < ?w" using w0 by simp
  have y: "?p div ?w < height img" using p by (simp add: less_mult_imp_div_less mult.commute)
  have pe: "?p div ?w * ?w + ?p mod ?w = ?p" by simp
  have je: "?p * 4 + j mod 4 = j" by simp
  have "j mod 4 < 4" by simp
  then consider "j mod 4 = 0" | "j mod 4 = 1" | "j mod 4 = 2" | "j mod 4 = 3" by linarith
  then show ?thesis
  proof cases
    case 1 then show ?thesis
      using conv_pass_nth[OF wf j, of IDENTITY_KERNEL options] je
      by (simp add: identity_pixel_value[OF y x o] pe at3_def toUint8Clamp_rd)
  next
    case 2 then show ?thesis
      using conv_pass_nth[OF wf j, of IDENTITY_KERNEL options] je
      by (simp add: identity_pixel_value[OF y x o] pe at3_def toUint8Clamp_rd)
  next
    case 3 then show ?thesis
      using conv_pass_nth[OF wf j, of IDENTITY_KERNEL options] je
      by (simp add: identity_pixel_value[OF y x o] pe at3_def toUint8Clamp_rd)
  next
    case 4 then show ?thesis
      using conv_pass_nth[OF wf j, of IDENTITY_KERNEL options] by simp
  qed
qed

section \<open>The patch pipeline in closed form\<close>

lemma upt_0_2: "[0..<2] = [0, 1]"
  by (simp add: numeral_2_eq_2)

lemma upt_0_3: "[0..<3] = [0, 1, 2]"
  by (simp add: numeral_3_eq_3)

lemma upt_0_4: "[0..<4] = [0, 1, 2, 3]"
  by (simp add: numeral_eq_Suc)

lemma sum_lessThan_3: "(\<Sum>i<3. f i) = f 0 + f 1 + f (2::nat)"
  by (simp add: numeral_3_eq_3 numeral_2_eq_2)

lemma sum_lessThan_4: "(\<Sum>i<4. f i) = f 0 + f 1 + f 2 + f (3::nat)"
  by (simp add: numeral_eq_Suc)

lemma patch_sum_eq:
  "patch_sum inputPatch kern y x =
     (\<Sum>ky<3. \<Sum>kx<3. cell inputPatch (y + ky) (x + kx) * at3 (at3 kern ky) kx)"
  by (simp add: patch_sum_def upt_0_3 sum_lessThan_3)

lemma featureMap_eq:
  "featureMap inputPatch kern relu =
     \<lparr>map_fm = map (\<lambda>y. map (\<lambda>x. if relu then max 0 (patch_sum inputPatch kern y x)
                                       else patch_sum inputPatch kern y x) [0, 1]) [0, 1],
      rawMap = map (\<lambda>y. map (\<lambda>x. patch_sum inputPatch kern y x) [0, 1]) [0, 1]\<rparr>"
  by (simp add: featureMap_def upt_0_2 set2_def Let_def)

lemma featureMap_nth:
  assumes "y < 2" "x < 2"
  shows "map_fm (featureMap inputPatch kern relu) ! y ! x =
           (if relu then max 0 (patch_sum inputPatch kern y x) else patch_sum inputPatch kern y x)"
    and "rawMap (featureMap inputPatch kern relu) ! y ! x = patch_sum inputPatch kern y x"
proof -
  have "y = 0 \<or> y = 1" "x = 0 \<or> x = 1" using assms by auto
  then show "map_fm (featureMap inputPatch kern relu) ! y ! x =
           (if relu then max 0 (patch_sum inputPatch kern y x) else patch_sum inputPatch kern y x)"
    and "rawMap (featureMap inputPatch kern relu) ! y ! x = patch_sum inputPatch kern y x"
    unfolding featureMap_eq by auto
qed

lemma Math_max_4: "Math_max [a, b, c, d] = max a (max b (max c d))"
  by (simp add: max_def)

lemma Max_set_4: "Max (set [a, b, c, d]) = max a (max b (max c (d::real)))"
  by simp

lemma length_4E:
  assumes "length xs = 4"
  obtains a b c d where "xs = [a, b, c, d]"
proof -
  from assms obtain a b c d where "xs = [a, b, c, d]"
    by (auto simp: length_Suc_conv numeral_eq_Suc)
  then show ?thesis by (rule that)
qed

lemma cell_pad4: "i < 4 \<Longrightarrow> j < 4 \<Longrightarrow> cell (pad4 inputPatch) i j = cell inputPatch i j"
proof -
  assume ij: "i < 4" "j < 4"
  have "length (pad4 inputPatch) = 4" "length (pad4 inputPatch ! i) = 4"
    "pad4 inputPatch ! i ! j = cell inputPatch i j"
    using ij by (simp_all add: pad4_def)
  then show ?thesis using ij unfolding cell_def[of "pad4 inputPatch"] by simp
qed

lemma logits_eq:
  "logits fv = map (\<lambda>c. fcBiases ! c + (\<Sum>i<4. fv ! i * fcWeights ! i ! c)) [0, 1, 2, 3]"
  by (simp add: logits_def upt_0_4 sum_lessThan_4 add.assoc)

lemma probabilities_4:
  fixes a b c d :: real
  defines "m \<equiv> max a (max b (max c d))"
  defines "s \<equiv> exp ((a - m) / 100) + exp ((b - m) / 100) + exp ((c - m) / 100) + exp ((d - m) / 100)"
  shows "probabilities [a, b, c, d] =
     [100 * exp ((a - m) / 100) / s, 100 * exp ((b - m) / 100) / s,
      100 * exp ((c - m) / 100) / s, 100 * exp ((d - m) / 100) / s]"
  unfolding probabilities_def Math_max_4 Let_def m_def s_def by simp

lemma softmax_entry:
  fixes e s :: real
  assumes "0 < e" "e \<le> s"
  shows "0 \<le> 100 * e / s \<and> 100 * e / s \<le> 100"
proof -
  have "0 < s" using assms by linarith
  then have "e / s \<le> 1" using assms(2) by simp
  moreover have "0 \<le> e / s" using assms(1) \<open>0 < s\<close> by simp
  ultimately show ?thesis by simp
qed

section \<open>The normalisation pass in closed form\<close>

lemma pixel_starts_eq: "length out = 4 * n \<Longrightarrow> pixel_starts out = map (\<lambda>p. 4 * p) [0..<n]"
  by (simp add: pixel_starts_def)

lemma rescale_step_length: "length (rescale_step mn rng i out) = length out"
  by (simp add: rescale_step_def Let_def)

lemma rescale_step_other:
  "j div 4 \<noteq> p \<Longrightarrow> rescale_step mn rng (4 * p) out ! j = out ! j"
  by (auto simp: rescale_step_def Let_def)

lemma rescale_step_own:
  assumes "j div 4 = p" "j < length out"
  shows "rescale_step mn rng (4 * p) out ! j =
    (if j mod 4 = 3 then out ! j
     else toUint8Clamp (((real (unat (out ! j)) - mn) / rng) * 255))"
proof -
  have j: "j = 4 * p + j mod 4" using assms(1) by (metis mult_div_mod_eq)
  have "j mod 4 < 4" by simp
  then consider "j mod 4 = 0" | "j mod 4 = 1" | "j mod 4 = 2" | "j mod 4 = 3" by linarith
  then show ?thesis
  proof cases
    case 1 with j have "j = 4 * p" by simp
    with assms(2) 1 show ?thesis by (simp add: rescale_step_def Let_def rd_def)
  next
    case 2 with j have "j = 4 * p + 1" by simp
    with assms(2) 2 show ?thesis by (simp add: rescale_step_def Let_def rd_def)
  next
    case 3 with j have "j = 4 * p + 2" by simp
    with assms(2) 3 show ?thesis by (simp add: rescale_step_def Let_def rd_def)
  next
    case 4 with j have "j = 4 * p + 3" by simp
    with assms(2) 4 show ?thesis by (simp add: rescale_step_def Let_def)
  qed
qed

lemma rescale_nth:
  assumes len: "length out = 4 * n" and j: "j < length out"
  shows "fold (rescale_step mn rng) (pixel_starts out) out ! j =
    (if j mod 4 = 3 then out ! j
     else toUint8Clamp (((real (unat (out ! j)) - mn) / rng) * 255))"
proof -
  have p: "j div 4 \<in> set [0..<n]" using len j by simp
  have f: "fold (rescale_step mn rng) (pixel_starts out) out =
      fold (\<lambda>p. rescale_step mn rng (4 * p)) [0..<n] out"
    unfolding pixel_starts_eq[OF len] fold_map by (simp add: comp_def)
  show ?thesis
    unfolding f
    using fold_blocks[where g = "\<lambda>p. rescale_step mn rng (4 * p)"
        and h = "\<lambda>p j v. if j mod 4 = 3 then v
           else toUint8Clamp (((real (unat v) - mn) / rng) * 255)"
        and ps = "[0..<n]", OF rescale_step_length rescale_step_other rescale_step_own _ j] p
    by simp
qed

lemma rescale_length: "length (fold (rescale_step mn rng) ps out) = length out"
  by (rule fold_length) (rule rescale_step_length)

lemma normalize_pass_length: "length (normalize_pass out) = length out"
  by (simp add: normalize_pass_def Let_def rescale_length split: prod.split)

lemma normalize_pass_nth:
  assumes len: "length out = 4 * n" and j: "j < length out"
    and mm: "scan_min_max out = (mn, mx)"
  shows "normalize_pass out ! j =
    (if j mod 4 = 3 \<or> \<not> mx - mn > 0 then out ! j
     else toUint8Clamp (((real (unat (out ! j)) - mn) / (mx - mn)) * 255))"
  unfolding normalize_pass_def mm using rescale_nth[OF len j] by (simp add: Let_def)

lemma pixel_body_normalize_irrelevant:
  "pixel_body img kern (options\<lparr>normalize_opt := b\<rparr>) = pixel_body img kern options"
  by (intro ext) (simp add: pixel_body_def pixel_value_def grayscale_def activation_def)

lemma conv_pass_normalize_irrelevant:
  "conv_pass img kern (options\<lparr>normalize_opt := b\<rparr>) = conv_pass img kern options"
  unfolding conv_pass_def pixel_body_normalize_irrelevant ..

lemma grayscale_pixel_value:
  assumes "useGrayscale options"
  shows "at3 (pixel_value img kern options y x) c = at3 (pixel_value img kern options y x) 0"
proof -
  obtain r g b where "activation options (accumulate img kern y x) = (r, g, b)"
    by (cases "activation options (accumulate img kern y x)") auto
  then show ?thesis using assms by (simp add: pixel_value_def grayscale_def at3_def Let_def)
qed

lemma rd_le_255: "rd d i \<le> 255"
proof -
  have "real (unat (d ! i)) \<le> real 255"
    using unat_byte_le[of "d ! i"] by (rule of_nat_mono)
  then show ?thesis unfolding rd_def by simp
qed

lemma rd_inj: "rd d i = rd d j \<longleftrightarrow> d ! i = d ! j"
  unfolding rd_def of_nat_eq_iff by (rule word_unat_eq_iff[symmetric])

lemma byte_le_255: "(w :: 8 word) \<le> 255"
  using unat_byte_le[of w] by (simp add: word_le_nat_alt)

lemma rgb_values_set:
  "set (rgb_values d) = {d ! j | j. j < length d \<and> j mod 4 \<noteq> 3}"
  by (auto simp: rgb_values_def)

lemma rgb_index_cases:
  assumes "j < 4 * Suc k" "j mod 4 \<noteq> 3"
  shows "j < 4 * k \<or> j = 4 * k \<or> j = 4 * k + 1 \<or> j = 4 * k + 2"
  using assms by presburger

lemma scan_step_inv:
  assumes "scan_inv out k mm"
  shows "scan_inv out (Suc k) (scan_step out (4 * k) mm)"
proof -
  obtain mn mx where mm: "mm = (mn, mx)" by (cases mm) auto
  define a b c where "a = rd out (4 * k)" and "b = rd out (4 * k + 1)" and "c = rd out (4 * k + 2)"
  define mn' mx' where "mn' = min mn (min a (min b c))" and "mx' = max mx (max a (max b c))"
  have st: "scan_step out (4 * k) mm = (mn', mx')"
    by (simp add: scan_step_def mm mn'_def mx'_def a_def b_def c_def)
  have I1: "\<And>j. j < 4 * k \<Longrightarrow> j mod 4 \<noteq> 3 \<Longrightarrow> mn \<le> rd out j \<and> rd out j \<le> mx"
    and I2: "mn = 255 \<or> (\<exists>j<4 * k. j mod 4 \<noteq> 3 \<and> rd out j = mn)"
    and I3: "mx = 0 \<or> (\<exists>j<4 * k. j mod 4 \<noteq> 3 \<and> rd out j = mx)"
    using assms unfolding scan_inv_def mm by auto
  have m0: "(4 * k) mod 4 \<noteq> 3" "(4 * k + 1) mod 4 \<noteq> 3" "(4 * k + 2) mod 4 \<noteq> 3"
    by presburger+
  have l0: "4 * k < 4 * Suc k" "4 * k + 1 < 4 * Suc k" "4 * k + 2 < 4 * Suc k" by simp_all
  have abc: "\<exists>j<4 * Suc k. j mod 4 \<noteq> 3 \<and> rd out j = a"
    "\<exists>j<4 * Suc k. j mod 4 \<noteq> 3 \<and> rd out j = b"
    "\<exists>j<4 * Suc k. j mod 4 \<noteq> 3 \<and> rd out j = c"
    unfolding a_def b_def c_def using m0 l0 by blast+
  have old: "\<exists>j<4 * Suc k. j mod 4 \<noteq> 3 \<and> rd out j = v"
    if "\<exists>j<4 * k. j mod 4 \<noteq> 3 \<and> rd out j = v" for v
  proof -
    from that obtain j where j: "j < 4 * k" "j mod 4 \<noteq> 3" "rd out j = v" by blast
    from j(1) have "j < 4 * Suc k" by simp
    with j(2,3) show ?thesis by blast
  qed
  have A: "mn' \<le> rd out j \<and> rd out j \<le> mx'" if jl: "j < 4 * Suc k" and jm: "j mod 4 \<noteq> 3" for j
  proof -
    consider "j < 4 * k" | "j = 4 * k" | "j = 4 * k + 1" | "j = 4 * k + 2"
      using rgb_index_cases[OF jl jm] by blast
    then show ?thesis
    proof cases
      case 1
      then show ?thesis using I1[OF 1 jm] unfolding mn'_def mx'_def by linarith
    next
      case 2 then have "rd out j = a" by (simp add: a_def)
      then show ?thesis unfolding mn'_def mx'_def by linarith
    next
      case 3 then have "rd out j = b" by (simp add: b_def)
      then show ?thesis unfolding mn'_def mx'_def by linarith
    next
      case 4 then have "rd out j = c" by (simp add: c_def)
      then show ?thesis unfolding mn'_def mx'_def by linarith
    qed
  qed
  have "mn' = mn \<or> mn' = a \<or> mn' = b \<or> mn' = c"
    unfolding mn'_def by (simp add: min_def)
  then consider "mn' = mn" | "mn' = a" | "mn' = b" | "mn' = c" by blast
  then have B: "mn' = 255 \<or> (\<exists>j<4 * Suc k. j mod 4 \<noteq> 3 \<and> rd out j = mn')"
  proof cases
    case 1 then show ?thesis using I2 old[of mn] by blast
  next
    case 2 then show ?thesis using abc(1) by blast
  next
    case 3 then show ?thesis using abc(2) by blast
  next
    case 4 then show ?thesis using abc(3) by blast
  qed
  have "mx' = mx \<or> mx' = a \<or> mx' = b \<or> mx' = c"
    unfolding mx'_def by (simp add: max_def)
  then consider "mx' = mx" | "mx' = a" | "mx' = b" | "mx' = c" by blast
  then have C: "mx' = 0 \<or> (\<exists>j<4 * Suc k. j mod 4 \<noteq> 3 \<and> rd out j = mx')"
  proof cases
    case 1 then show ?thesis using I3 old[of mx] by blast
  next
    case 2 then show ?thesis using abc(1) by blast
  next
    case 3 then show ?thesis using abc(2) by blast
  next
    case 4 then show ?thesis using abc(3) by blast
  qed
  show ?thesis unfolding st scan_inv_def prod.case using A B C by blast
qed

lemma scan_fold_inv:
  "scan_inv out k (fold (scan_step out) (map (\<lambda>p. 4 * p) [0..<k]) (255, 0))"
proof (induction k)
  case 0
  show ?case by (simp add: scan_inv_def)
next
  case (Suc k)
  then show ?case using scan_step_inv[OF Suc] by simp
qed

lemma scan_min_max_inv:
  assumes "length out = 4 * n"
  shows "scan_inv out n (scan_min_max out)"
  unfolding scan_min_max_def pixel_starts_eq[OF assms] by (rule scan_fold_inv)

lemma rgb_values_mem:
  "u \<in> set (rgb_values d) \<longleftrightarrow> (\<exists>j<length d. j mod 4 \<noteq> 3 \<and> u = d ! j)"
  unfolding rgb_values_set by blast

lemma flat_output_iff:
  "flat_output d \<longleftrightarrow>
     (\<forall>i<length d. \<forall>j<length d. i mod 4 \<noteq> 3 \<longrightarrow> j mod 4 \<noteq> 3 \<longrightarrow> d ! i = d ! j)"
proof
  assume f: "flat_output d"
  show "\<forall>i<length d. \<forall>j<length d. i mod 4 \<noteq> 3 \<longrightarrow> j mod 4 \<noteq> 3 \<longrightarrow> d ! i = d ! j"
  proof (intro allI impI)
    fix i j assume "i < length d" "j < length d" "i mod 4 \<noteq> 3" "j mod 4 \<noteq> 3"
    then have "d ! i \<in> set (rgb_values d)" "d ! j \<in> set (rgb_values d)"
      unfolding rgb_values_mem by blast+
    then show "d ! i = d ! j" using f unfolding flat_output_def by blast
  qed
next
  assume a: "\<forall>i<length d. \<forall>j<length d. i mod 4 \<noteq> 3 \<longrightarrow> j mod 4 \<noteq> 3 \<longrightarrow> d ! i = d ! j"
  show "flat_output d"
    unfolding flat_output_def
  proof (intro ballI)
    fix u v assume "u \<in> set (rgb_values d)" "v \<in> set (rgb_values d)"
    then obtain i j where "i < length d" "i mod 4 \<noteq> 3" "u = d ! i"
      "j < length d" "j mod 4 \<noteq> 3" "v = d ! j"
      unfolding rgb_values_mem by blast
    then show "u = v" using a by blast
  qed
qed

lemma normalize_pass_flat:
  assumes len: "length out = 4 * n" and n: "0 < n" and flat: "flat_output out"
  shows "normalize_pass out = out"
proof -
  obtain mn mx where mm: "scan_min_max out = (mn, mx)" by (cases "scan_min_max out") auto
  have inv: "scan_inv out n (mn, mx)" using scan_min_max_inv[OF len] unfolding mm .
  have I1: "\<And>j. j < 4 * n \<Longrightarrow> j mod 4 \<noteq> 3 \<Longrightarrow> mn \<le> rd out j \<and> rd out j \<le> mx"
    and I2: "mn = 255 \<or> (\<exists>j<4 * n. j mod 4 \<noteq> 3 \<and> rd out j = mn)"
    and I3: "mx = 0 \<or> (\<exists>j<4 * n. j mod 4 \<noteq> 3 \<and> rd out j = mx)"
    using inv unfolding scan_inv_def prod.case by blast+
  have z: "0 < 4 * n" "(0::nat) mod 4 \<noteq> 3" using n by simp_all
  have same: "rd out j = rd out 0" if "j < 4 * n" "j mod 4 \<noteq> 3" for j
    using flat that z unfolding flat_output_iff len rd_inj by blast
  have b0: "mn \<le> rd out 0" "rd out 0 \<le> mx" using I1[OF z] by simp_all
  have "mn = rd out 0"
    using I2 same b0(1) rd_le_255[of out 0] by (elim disjE) (linarith, metis)
  moreover have "mx = rd out 0"
    using I3 same b0(2) rd_nonneg[of out 0] by (elim disjE) (linarith, metis)
  ultimately have "\<not> mx - mn > 0" by simp
  then show ?thesis unfolding normalize_pass_def mm by (simp add: Let_def)
qed

lemma normalize_pass_range:
  assumes len: "length out = 4 * n" and nflat: "\<not> flat_output out"
  shows "0 \<in> set (rgb_values (normalize_pass out)) \<and> 255 \<in> set (rgb_values (normalize_pass out))"
proof -
  obtain mn mx where mm: "scan_min_max out = (mn, mx)" by (cases "scan_min_max out") auto
  have inv: "scan_inv out n (mn, mx)" using scan_min_max_inv[OF len] unfolding mm .
  have I1: "\<And>j. j < 4 * n \<Longrightarrow> j mod 4 \<noteq> 3 \<Longrightarrow> mn \<le> rd out j \<and> rd out j \<le> mx"
    and I2: "mn = 255 \<or> (\<exists>j<4 * n. j mod 4 \<noteq> 3 \<and> rd out j = mn)"
    and I3: "mx = 0 \<or> (\<exists>j<4 * n. j mod 4 \<noteq> 3 \<and> rd out j = mx)"
    using inv unfolding scan_inv_def prod.case by blast+
  from nflat obtain i j where ij: "i < 4 * n" "j < 4 * n" "i mod 4 \<noteq> 3" "j mod 4 \<noteq> 3"
    "rd out i \<noteq> rd out j"
    unfolding flat_output_iff len rd_inj by blast
  have bi: "mn \<le> rd out i" "rd out i \<le> mx" using I1[OF ij(1,3)] by simp_all
  have bj: "mn \<le> rd out j" "rd out j \<le> mx" using I1[OF ij(2,4)] by simp_all
  have rng: "mx - mn > 0" using bi bj ij(5) by linarith
  have "mn \<noteq> 255"
    using bi(1) bj(1) rd_le_255[of out i] rd_le_255[of out j] ij(5) by linarith
  then obtain a where a: "a < 4 * n" "a mod 4 \<noteq> 3" "rd out a = mn" using I2 by blast
  have "mx \<noteq> 0"
    using bi(2) bj(2) rd_nonneg[of out i] rd_nonneg[of out j] ij(5) by linarith
  then obtain b where b: "b < 4 * n" "b mod 4 \<noteq> 3" "rd out b = mx" using I3 by blast
  have al: "a < length out" and bl: "b < length out" using a(1) b(1) len by simp_all
  have "normalize_pass out ! a = toUint8Clamp (((rd out a - mn) / (mx - mn)) * 255)"
    using normalize_pass_nth[OF len al mm] a(2) rng by (simp add: rd_def)
  then have A: "normalize_pass out ! a = 0" unfolding a(3) by (simp add: toUint8Clamp_0)
  have "normalize_pass out ! b = toUint8Clamp (((rd out b - mn) / (mx - mn)) * 255)"
    using normalize_pass_nth[OF len bl mm] b(2) rng by (simp add: rd_def)
  then have B: "normalize_pass out ! b = 255" unfolding b(3) using rng by (simp add: toUint8Clamp_255)
  have "0 \<in> set (rgb_values (normalize_pass out))"
    unfolding rgb_values_mem normalize_pass_length using al a(2) A by metis
  moreover have "255 \<in> set (rgb_values (normalize_pass out))"
    unfolding rgb_values_mem normalize_pass_length using bl b(2) B by metis
  ultimately show ?thesis by simp
qed

lemma tap_read_in_range:
  assumes "wf_image img" "in_bounds img py px" "c < 4"
  shows "nat ((py * int (width img) + px) * 4) + c < length (data img)"
proof -
  have b: "0 \<le> px" "px < int (width img)" "0 \<le> py" "py < int (height img)"
    using assms(2) unfolding in_bounds_def by simp_all
  define y x where "y = nat py" and "x = nat px"
  have yx: "py = int y" "px = int x" "y < height img" "x < width img"
    using b unfolding y_def x_def by simp_all
  have "(py * int (width img) + px) * 4 = int ((y * width img + x) * 4)"
    unfolding yx by simp
  then have "nat ((py * int (width img) + px) * 4) = (y * width img + x) * 4"
    by (simp only: nat_int)
  then show ?thesis using byte_index_less[OF assms(1) yx(3,4) assms(3)] by simp
qed

lemma pixel_start_in_range:
  assumes "length out = 4 * n" "i \<in> set (pixel_starts out)"
  shows "i + 2 < length out"
  using assms unfolding pixel_starts_eq[OF assms(1)] by auto

section \<open>The stages on run-time values in closed form\<close>

lemma patch_sum_rt_fail:
  assumes "length kern < 3"
  shows "patch_sum_rt inputPatch kern y x = Inl TypeError"
proof -
  consider "length kern = 0" | "length kern = 1" | "length kern = 2" using assms by linarith
  then show ?thesis
    by cases (simp_all add: patch_sum_rt_def upt_0_3 weight_rt_def)
qed

lemma fold_err_Inr:
  assumes "\<And>x s. x \<in> set xs \<Longrightarrow> f x s = Inr (g x s)"
  shows "fold_err f xs s = Inr (fold g xs s)"
  using assms by (induction xs arbitrary: s) simp_all

lemma patch_sum_rt_ok:
  assumes "3 \<le> length kern"
  shows "patch_sum_rt inputPatch kern y x = Inr (num_sum inputPatch kern y x)"
  unfolding patch_sum_rt_def num_sum_def
proof (rule fold_err_Inr)
  fix ky :: nat and s :: num
  assume "ky \<in> set [0..<3]"
  then have ky: "ky < length kern" using assms by simp
  show "fold_err (\<lambda>kx sum.
         let val = cell inputPatch (y + ky) (x + kx) in
         case weight_rt kern ky kx of
           Inl e \<Rightarrow> Inl e
         | Inr w \<Rightarrow> Inr (add_num sum (mul_num val w))) [0..<3] s =
       Inr (fold (\<lambda>kx sum.
         add_num sum (mul_num (cell inputPatch (y + ky) (x + kx))
           (if kx < length (kern ! ky) then Some (kern ! ky ! kx) else None))) [0..<3] s)"
    by (rule fold_err_Inr) (simp add: weight_rt_def ky Let_def)
qed

lemma add_num_None_iff: "add_num a b = None \<longleftrightarrow> a = None \<or> b = None"
  by (simp add: add_num_def split: option.splits)

lemma mul_num_None_iff: "mul_num v w = None \<longleftrightarrow> w = None"
  by (simp add: mul_num_def split: option.splits)

lemma num_sum_None_iff:
  "num_sum inputPatch kern y x = None \<longleftrightarrow> (\<exists>ky<3. length (kern ! ky) < 3)"
proof -
  have e: "(\<exists>ky<3. P ky) \<longleftrightarrow> P 0 \<or> P 1 \<or> P (2::nat)" for P
    by (auto simp: numeral_3_eq_3 less_Suc_eq numeral_2_eq_2)
  have l: "length r < 3 \<longleftrightarrow> \<not> 0 < length r \<or> \<not> 1 < length r \<or> \<not> 2 < length r" for r :: "real list"
    by auto
  show ?thesis
    unfolding e l
    by (simp add: num_sum_def upt_0_3 add_num_None_iff mul_num_None_iff)
qed

lemma num_sum_Some:
  assumes "\<forall>ky<3. 3 \<le> length (kern ! ky)"
  shows "num_sum inputPatch kern y x = Some (patch_sum inputPatch (kernel_tuple kern) y x)"
proof -
  have "3 \<le> length (kern ! 0)" "3 \<le> length (kern ! 1)" "3 \<le> length (kern ! 2)"
    using assms by simp_all
  then have l: "0 < length (kern ! 0)" "1 < length (kern ! 0)" "2 < length (kern ! 0)"
    "0 < length (kern ! 1)" "1 < length (kern ! 1)" "2 < length (kern ! 1)"
    "0 < length (kern ! 2)" "1 < length (kern ! 2)" "2 < length (kern ! 2)"
    by linarith+
  show ?thesis
    unfolding num_sum_def patch_sum_def upt_0_3
    using l by (simp add: add_num_def mul_num_def kernel_tuple_def at3_def Let_def)
qed

lemma num_sum_pad4:
  assumes "y < 2" "x < 2"
  shows "num_sum (pad4 inputPatch) kern y x = num_sum inputPatch kern y x"
  using assms unfolding num_sum_def upt_0_3 by (simp add: cell_pad4)

lemma featureMap_rt_fail:
  assumes "length kern < 3"
  shows "featureMap_rt inputPatch kern relu = Inl TypeError"
  unfolding featureMap_rt_def upt_0_2 by (simp add: patch_sum_rt_fail[OF assms])

lemma featureMap_rt_ok:
  assumes "3 \<le> length kern"
  shows "featureMap_rt inputPatch kern relu =
    Inr \<lparr>map_rt = map (\<lambda>y. map (\<lambda>x. if relu then map_option (max 0) (num_sum inputPatch kern y x)
                                      else num_sum inputPatch kern y x) [0, 1]) [0, 1],
         rawMap_rt = map (\<lambda>y. map (\<lambda>x. num_sum inputPatch kern y x) [0, 1]) [0, 1]\<rparr>"
  unfolding featureMap_rt_def upt_0_2 by (simp add: patch_sum_rt_ok[OF assms])

lemma lift_featureMap:
  "lift_fm (featureMap inputPatch k relu) =
     \<lparr>map_rt = map (\<lambda>y. map (\<lambda>x. Some (if relu then max 0 (patch_sum inputPatch k y x)
                                      else patch_sum inputPatch k y x)) [0, 1]) [0, 1],
      rawMap_rt = map (\<lambda>y. map (\<lambda>x. Some (patch_sum inputPatch k y x)) [0, 1]) [0, 1]\<rparr>"
  by (simp add: lift_fm_def featureMap_eq)

lemma pooledValue_rt_lift:
  "pooledValue_rt (lift_fm (featureMap inputPatch k relu)) poolingMode =
     Some (pooledValue (featureMap inputPatch k relu) poolingMode)"
proof -
  have g: "pooledValue_rt \<lparr>map_rt = [[Some a, Some b], [Some c, Some d]], rawMap_rt = r\<rparr> poolingMode
      = Some (pooledValue \<lparr>map_fm = [[a, b], [c, d]], rawMap = r'\<rparr> poolingMode)"
    for a b c d r r'
    by (simp add: pooledValue_rt_def pooledValue_def Math_max_num_def add_num_def Let_def)
  show ?thesis
    unfolding lift_featureMap unfolding featureMap_eq by (simp add: g)
qed

lemma featureMap_rt_pad4:
  "featureMap_rt (pad4 inputPatch) kern relu = featureMap_rt inputPatch kern relu"
proof (cases "length kern < 3")
  case True
  then show ?thesis by (simp add: featureMap_rt_fail)
next
  case False
  then have "3 \<le> length kern" by simp
  then show ?thesis by (simp add: featureMap_rt_ok num_sum_pad4)
qed

lemma featureMap_rt_nan:
  assumes "3 \<le> length kern" "\<exists>ky<3. length (kern ! ky) < 3"
  shows "featureMap_rt inputPatch kern relu = Inr nan_fm"
proof -
  have "num_sum inputPatch kern y x = None" for y x
    using assms(2) by (simp only: num_sum_None_iff)
  then show ?thesis by (simp add: featureMap_rt_ok[OF assms(1)] nan_fm_def)
qed

lemma featureMap_rt_lift:
  assumes "3 \<le> length kern" "\<forall>ky<3. 3 \<le> length (kern ! ky)"
  shows "featureMap_rt inputPatch kern relu =
    Inr (lift_fm (featureMap inputPatch (kernel_tuple kern) relu))"
  by (simp add: featureMap_rt_ok[OF assms(1)] num_sum_Some[OF assms(2)] lift_featureMap)

section \<open>The claims\<close>

text \<open>
  C1. At every pixel \<open>(x, y)\<close> the running sums of the kernel loops are, for each of
  R, G and B, the sum over \<open>ky, kx\<close> in \<open>{-1, 0, 1}\<close> of
  \<open>kernel[ky+1][kx+1] * input[y+ky][x+kx][channel]\<close>, with zero for a neighbour outside
  the image. The sum goes undivided into the activation, the grayscale step and the
  clamped store: that is the byte found in the result when no normalisation pass runs.
\<close>

theorem convolve_sum:
  assumes "wf_image img" "y < height img" "x < width img" "c < 3" "\<not> normalize_opt options"
  shows "accumulate img kern y x =
      (\<Sum>ky\<in>{-1, 0, 1}. \<Sum>kx\<in>{-1, 0, 1}. conv_term img kern y x 0 ky kx,
       \<Sum>ky\<in>{-1, 0, 1}. \<Sum>kx\<in>{-1, 0, 1}. conv_term img kern y x 1 ky kx,
       \<Sum>ky\<in>{-1, 0, 1}. \<Sum>kx\<in>{-1, 0, 1}. conv_term img kern y x 2 ky kx)
    \<and> data (applyConvolution img kern options) ! ((y * width img + x) * 4 + c) =
      toUint8Clamp (at3 (grayscale options (activation options
        (\<Sum>ky\<in>{-1, 0, 1}. \<Sum>kx\<in>{-1, 0, 1}. conv_term img kern y x 0 ky kx,
         \<Sum>ky\<in>{-1, 0, 1}. \<Sum>kx\<in>{-1, 0, 1}. conv_term img kern y x 1 ky kx,
         \<Sum>ky\<in>{-1, 0, 1}. \<Sum>kx\<in>{-1, 0, 1}. conv_term img kern y x 2 ky kx))) c)"
proof -
  have "c < 4" "c \<noteq> 3" using assms(4) by simp_all
  then have "conv_pass img kern options ! ((y * width img + x) * 4 + c) =
      toUint8Clamp (at3 (pixel_value img kern options y x) c)"
    using conv_pass_pixel[OF assms(1-3), of c kern options] by simp
  then show ?thesis
    using assms(5) by (simp add: applyConvolution_def pixel_value_def accumulate_eq)
qed

theorem convolve_sum_witness:
  "wf_image \<lparr>width = 2, height = 1, data = [1, 2, 3, 0, 10, 20, 30, 7]\<rparr>
   \<and> accumulate \<lparr>width = 2, height = 1, data = [1, 2, 3, 0, 10, 20, 30, 7]\<rparr>
        ((1, 2, 3), (4, 5, 1/2), (7, 8, 9)) 0 0 = (10, 20, 30)
   \<and> data (applyConvolution \<lparr>width = 2, height = 1, data = [1, 2, 3, 0, 10, 20, 30, 7]\<rparr>
        ((1, 2, 3), (4, 5, 1/2), (7, 8, 9))
        \<lparr>useGrayscale = False, useReLU = True, normalize_opt = False\<rparr>) ! 2 = 30"
proof -
  let ?img = "\<lparr>width = 2, height = 1, data = [1, 2, 3, 0, 10, 20, 30, 7]\<rparr>"
  let ?k = "((1, 2, 3), (4, 5, 1/2), (7, 8, 9)) :: KernelMatrix"
  let ?o = "\<lparr>useGrayscale = False, useReLU = True, normalize_opt = False\<rparr>"
  have hyps: "wf_image ?img" "0 < height ?img" "0 < width ?img" "(2::nat) < 3" "\<not> normalize_opt ?o"
    by (simp_all add: wf_image_def)
  have idx: "(0 * width ?img + 0) * 4 + 2 = 2" by simp
  have ev: "(\<Sum>ky\<in>{-1, 0, 1}. \<Sum>kx\<in>{-1, 0, 1}. conv_term ?img ?k 0 0 0 ky kx) = 10"
    "(\<Sum>ky\<in>{-1, 0, 1}. \<Sum>kx\<in>{-1, 0, 1}. conv_term ?img ?k 0 0 1 ky kx) = 20"
    "(\<Sum>ky\<in>{-1, 0, 1}. \<Sum>kx\<in>{-1, 0, 1}. conv_term ?img ?k 0 0 2 ky kx) = 30"
    by (simp_all add: conv_term_def in_bounds_def input_at_def rd_def at3_def)
  have st: "toUint8Clamp (at3 (grayscale ?o (activation ?o (10, 20, 30))) 2) = 30"
    by (simp add: grayscale_def activation_def at3_def toUint8Clamp_def)
  show ?thesis
    using convolve_sum[OF hyps, of ?k] hyps(1) unfolding idx ev st by simp
qed

text \<open>
  C3. With the identity kernel and the options \<open>useReLU = true\<close>,
  \<open>useGrayscale = false\<close>, \<open>normalize = false\<close>, the result has the dimensions of the
  input, its R, G and B bytes are those of the input at every pixel, and every alpha byte
  is 255. So the result is the input itself exactly when the input is fully opaque.
\<close>

theorem identity_kernel_rgb:
  assumes "wf_image img" "useReLU options" "\<not> useGrayscale options" "\<not> normalize_opt options"
  shows "width (applyConvolution img IDENTITY_KERNEL options) = width img
    \<and> height (applyConvolution img IDENTITY_KERNEL options) = height img
    \<and> length (data (applyConvolution img IDENTITY_KERNEL options)) = length (data img)
    \<and> (\<forall>j < length (data img).
          data (applyConvolution img IDENTITY_KERNEL options) ! j =
            (if j mod 4 = 3 then 255 else data img ! j))
    \<and> ((\<forall>j < length (data img). j mod 4 = 3 \<longrightarrow> data img ! j = 255)
          \<longrightarrow> applyConvolution img IDENTITY_KERNEL options = img)"
proof -
  let ?out = "applyConvolution img IDENTITY_KERNEL options"
  have d: "data ?out = conv_pass img IDENTITY_KERNEL options"
    using assms(4) by (simp add: applyConvolution_data)
  have w: "width ?out = width img" "height ?out = height img"
    by (rule applyConvolution_dims)+
  have l: "length (data ?out) = length (data img)"
    unfolding d by (rule conv_pass_length)
  have n: "\<forall>j < length (data img). data ?out ! j = (if j mod 4 = 3 then 255 else data img ! j)"
    unfolding d using identity_conv_pass_nth[OF assms(1) _ assms(2,3)] by simp
  have e: "?out = img" if a: "\<forall>j < length (data img). j mod 4 = 3 \<longrightarrow> data img ! j = 255"
  proof -
    have "data ?out = data img"
      using l n a by (intro nth_equalityI) auto
    then show ?thesis using w by simp
  qed
  show ?thesis using w l n e by blast
qed

theorem identity_kernel_rgb_witness:
  "wf_image \<lparr>width = 1, height = 1, data = [7, 0, 200, 255]\<rparr>
   \<and> applyConvolution \<lparr>width = 1, height = 1, data = [7, 0, 200, 255]\<rparr> IDENTITY_KERNEL
        \<lparr>useGrayscale = False, useReLU = True, normalize_opt = False\<rparr>
      = \<lparr>width = 1, height = 1, data = [7, 0, 200, 255]\<rparr>"
proof -
  let ?img = "\<lparr>width = 1, height = 1, data = [7, 0, 200, 255]\<rparr>"
  let ?o = "\<lparr>useGrayscale = False, useReLU = True, normalize_opt = False\<rparr>"
  have hyps: "wf_image ?img" "useReLU ?o" "\<not> useGrayscale ?o" "\<not> normalize_opt ?o"
    by (simp_all add: wf_image_def)
  have alpha: "\<forall>j < length (data ?img). j mod 4 = 3 \<longrightarrow> data ?img ! j = 255"
  proof (intro allI impI)
    fix j :: nat
    assume "j < length (data ?img)" "j mod 4 = 3"
    then have "j = 3" by simp
    then show "data ?img ! j = 255" by simp
  qed
  show ?thesis
    using identity_kernel_rgb[OF hyps] alpha hyps(1) by blast
qed

text \<open>
  An input pixel with alpha 0 comes back with alpha 255: the result is not the input.
\<close>

theorem identity_kernel_counterexample:
  "wf_image \<lparr>width = 1, height = 1, data = [1, 2, 3, 0]\<rparr>
   \<and> applyConvolution \<lparr>width = 1, height = 1, data = [1, 2, 3, 0]\<rparr> IDENTITY_KERNEL
        \<lparr>useGrayscale = False, useReLU = True, normalize_opt = False\<rparr>
      = \<lparr>width = 1, height = 1, data = [1, 2, 3, 255]\<rparr>
   \<and> applyConvolution \<lparr>width = 1, height = 1, data = [1, 2, 3, 0]\<rparr> IDENTITY_KERNEL
        \<lparr>useGrayscale = False, useReLU = True, normalize_opt = False\<rparr>
      \<noteq> \<lparr>width = 1, height = 1, data = [1, 2, 3, 0]\<rparr>"
  by (simp add: wf_image_def applyConvolution_def conv_pass_def pixel_body_def pixel_value_def
      accumulate_def tap_def IDENTITY_KERNEL_def at3_def rd_def activation_def grayscale_def
      store_pixel_def toUint8Clamp_def)

text \<open>
  C4. The two components differ where \<open>useReLU\<close> is off. The engine's activation step
  turns each running sum into its absolute value, and that is what goes on (through the
  grayscale step) into the stored byte; the pipeline's activated feature map keeps the raw
  signed sum. With \<open>useReLU\<close> on both take \<open>max 0\<close> of the sum.
\<close>

theorem activation_asymmetry:
  assumes "wf_image img" "y < height img" "x < width img" "c < 3" "\<not> normalize_opt options"
    and "py < 2" "px < 2"
  shows "activation options (r, g, b) =
      (if useReLU options then (max 0 r, max 0 g, max 0 b) else (\<bar>r\<bar>, \<bar>g\<bar>, \<bar>b\<bar>))
    \<and> data (applyConvolution img kern options) ! ((y * width img + x) * 4 + c) =
      toUint8Clamp (at3 (grayscale options
        (if useReLU options then
           (max 0 (\<Sum>ky\<in>{-1, 0, 1}. \<Sum>kx\<in>{-1, 0, 1}. conv_term img kern y x 0 ky kx),
            max 0 (\<Sum>ky\<in>{-1, 0, 1}. \<Sum>kx\<in>{-1, 0, 1}. conv_term img kern y x 1 ky kx),
            max 0 (\<Sum>ky\<in>{-1, 0, 1}. \<Sum>kx\<in>{-1, 0, 1}. conv_term img kern y x 2 ky kx))
         else
           (\<bar>\<Sum>ky\<in>{-1, 0, 1}. \<Sum>kx\<in>{-1, 0, 1}. conv_term img kern y x 0 ky kx\<bar>,
            \<bar>\<Sum>ky\<in>{-1, 0, 1}. \<Sum>kx\<in>{-1, 0, 1}. conv_term img kern y x 1 ky kx\<bar>,
            \<bar>\<Sum>ky\<in>{-1, 0, 1}. \<Sum>kx\<in>{-1, 0, 1}. conv_term img kern y x 2 ky kx\<bar>))) c)
    \<and> rawMap (featureMap inputPatch kern relu) ! py ! px =
      (\<Sum>ky<3. \<Sum>kx<3. cell inputPatch (py + ky) (px + kx) * at3 (at3 kern ky) kx)
    \<and> map_fm (featureMap inputPatch kern relu) ! py ! px =
      (if relu then max 0 (rawMap (featureMap inputPatch kern relu) ! py ! px)
       else rawMap (featureMap inputPatch kern relu) ! py ! px)"
proof -
  have "c < 4" "c \<noteq> 3" using assms(4) by simp_all
  then have "data (applyConvolution img kern options) ! ((y * width img + x) * 4 + c) =
      toUint8Clamp (at3 (pixel_value img kern options y x) c)"
    using conv_pass_pixel[OF assms(1-3), of c kern options] assms(5)
    by (simp add: applyConvolution_data)
  then show ?thesis
    by (simp add: pixel_value_def accumulate_eq activation_def
        featureMap_nth[OF assms(6,7)] patch_sum_eq)
qed

theorem activation_asymmetry_witness:
  "wf_image \<lparr>width = 1, height = 1, data = [10, 20, 30, 255]\<rparr>
   \<and> data (applyConvolution \<lparr>width = 1, height = 1, data = [10, 20, 30, 255]\<rparr>
        ((-2, 0, 0), (0, -2, 0), (0, 0, 0))
        \<lparr>useGrayscale = False, useReLU = False, normalize_opt = False\<rparr>) ! 0 = 20
   \<and> data (applyConvolution \<lparr>width = 1, height = 1, data = [10, 20, 30, 255]\<rparr>
        ((-2, 0, 0), (0, -2, 0), (0, 0, 0))
        \<lparr>useGrayscale = False, useReLU = True, normalize_opt = False\<rparr>) ! 0 = 0
   \<and> map_fm (featureMap [[10, 0, 0, 0], [0, 0, 0, 0], [0, 0, 0, 0], [0, 0, 0, 0]]
        ((-2, 0, 0), (0, -2, 0), (0, 0, 0)) False) ! 0 ! 0 = -20
   \<and> map_fm (featureMap [[10, 0, 0, 0], [0, 0, 0, 0], [0, 0, 0, 0], [0, 0, 0, 0]]
        ((-2, 0, 0), (0, -2, 0), (0, 0, 0)) True) ! 0 ! 0 = 0"
proof -
  let ?img = "\<lparr>width = 1, height = 1, data = [10, 20, 30, 255]\<rparr>"
  let ?k = "((-2, 0, 0), (0, -2, 0), (0, 0, 0)) :: KernelMatrix"
  let ?p = "[[10, 0, 0, 0], [0, 0, 0, 0], [0, 0, 0, 0], [0, 0, 0, 0]] :: real list list"
  let ?a = "\<lparr>useGrayscale = False, useReLU = False, normalize_opt = False\<rparr>"
  let ?r = "\<lparr>useGrayscale = False, useReLU = True, normalize_opt = False\<rparr>"
  have hyps: "wf_image ?img" "0 < height ?img" "0 < width ?img" "(0::nat) < 3"
    by (simp_all add: wf_image_def)
  have n: "\<not> normalize_opt ?a" "\<not> normalize_opt ?r" by simp_all
  have two: "(0::nat) < 2" by simp
  have idx: "(0 * width ?img + 0) * 4 + 0 = 0" by simp
  have ev: "(\<Sum>ky\<in>{-1, 0, 1}. \<Sum>kx\<in>{-1, 0, 1}. conv_term ?img ?k 0 0 0 ky kx) = -20"
    by (simp add: conv_term_def in_bounds_def input_at_def rd_def at3_def)
  have ev2: "(\<Sum>ky<3. \<Sum>kx<3. cell ?p (0 + ky) (0 + kx) * at3 (at3 ?k ky) kx) = -20"
    by (simp add: sum_lessThan_3 cell_def at3_def)
  have st: "toUint8Clamp 20 = 20" "toUint8Clamp 0 = 0"
    by (simp_all add: toUint8Clamp_def)
  have A: "data (applyConvolution ?img ?k ?a) ! 0 = 20"
    using activation_asymmetry[OF hyps n(1) two two, where kern = ?k and inputPatch = ?p and relu = False]
    unfolding idx ev by (simp add: grayscale_def at3_def st)
  have B: "data (applyConvolution ?img ?k ?r) ! 0 = 0"
    using activation_asymmetry[OF hyps n(2) two two, where kern = ?k and inputPatch = ?p and relu = True]
    unfolding idx ev by (simp add: grayscale_def at3_def st)
  have C: "map_fm (featureMap ?p ?k False) ! 0 ! 0 = -20"
    using activation_asymmetry[OF hyps n(1) two two, where kern = ?k and inputPatch = ?p and relu = False]
    unfolding ev2 by simp
  have D: "map_fm (featureMap ?p ?k True) ! 0 ! 0 = 0"
    using activation_asymmetry[OF hyps n(2) two two, where kern = ?k and inputPatch = ?p and relu = True]
    unfolding ev2 by simp
  show ?thesis using hyps(1) A B C D by simp
qed

text \<open>
  C9. For every patch, kernel and \<open>useReLU\<close> setting, pooling the four activated
  feature-map values in mode \<open>'average'\<close> gives at most what mode \<open>'max'\<close> gives.
\<close>

theorem average_le_max:
  "pooledValue (featureMap inputPatch kern relu) ''average''
     \<le> pooledValue (featureMap inputPatch kern relu) ''max''"
proof -
  have "(a + b + c + d) / 4 \<le> max a (max b (max c d))" for a b c d :: real
    by (simp add: max_def)
  then show ?thesis
    by (simp add: pooledValue_def Math_max_4 del: Math_max.simps)
qed

theorem average_le_max_witness:
  "pooledValue (featureMap [[1, 2], [3, 4]] ((1, 0, 0), (0, 0, 0), (0, 0, 0)) False) ''average'' = 2.5
   \<and> pooledValue (featureMap [[1, 2], [3, 4]] ((1, 0, 0), (0, 0, 0), (0, 0, 0)) False) ''max'' = 4
   \<and> pooledValue (featureMap [[1, 2], [3, 4]] ((1, 0, 0), (0, 0, 0), (0, 0, 0)) False) ''average''
       \<le> pooledValue (featureMap [[1, 2], [3, 4]] ((1, 0, 0), (0, 0, 0), (0, 0, 0)) False) ''max''"
proof -
  let ?fm = "featureMap [[1, 2], [3, 4]] ((1, 0, 0), (0, 0, 0), (0, 0, 0)) False"
  have fm: "?fm = \<lparr>map_fm = [[1, 2], [3, 4]], rawMap = [[1, 2], [3, 4]]\<rparr>"
    by (simp add: featureMap_eq patch_sum_eq sum_lessThan_3 cell_def at3_def)
  have a: "pooledValue ?fm ''average'' = 2.5"
    unfolding fm by (simp add: pooledValue_def)
  have m: "pooledValue ?fm ''max'' = 4"
    unfolding fm by (simp add: pooledValue_def)
  show ?thesis
    using average_le_max[of "[[1, 2], [3, 4]]" "((1, 0, 0), (0, 0, 0), (0, 0, 0))" False]
    unfolding a m by simp
qed

text \<open>
  C7. The flatten stage returns exactly four values: \<open>p\<close>, \<open>|255 - p|\<close>, the remainder
  of \<open>p * 1.5\<close> by 255 with the quotient truncated towards zero, and \<open>p / 2\<close>. For
  \<open>p \<ge> 0\<close> the third value is \<open>(p * 1.5) mod 255\<close>; for \<open>p < 0\<close> it lies in
  \<open>(-255, 0]\<close>.
\<close>

theorem flatten_values:
  "flatVector p =
     [p, \<bar>255 - p\<bar>,
      p * 1.5 - 255 * of_int (if 0 \<le> p then \<lfloor>p * 1.5 / 255\<rfloor> else \<lceil>p * 1.5 / 255\<rceil>),
      p / 2]
   \<and> (0 \<le> p \<longrightarrow> flatVector p ! 2 = floor_mod (p * 1.5) 255)
   \<and> (p < 0 \<longrightarrow> - 255 < flatVector p ! 2 \<and> flatVector p ! 2 \<le> 0)"
proof -
  have s: "(0 \<le> p * 1.5 / 255) = (0 \<le> p)" by simp
  have v3: "flatVector p ! 2 = p * 1.5 - 255 * of_int (if 0 \<le> p then \<lfloor>p * 1.5 / 255\<rfloor> else \<lceil>p * 1.5 / 255\<rceil>)"
    unfolding flatVector_def js_rem_def Let_def s by simp
  have 1: "flatVector p =
     [p, \<bar>255 - p\<bar>,
      p * 1.5 - 255 * of_int (if 0 \<le> p then \<lfloor>p * 1.5 / 255\<rfloor> else \<lceil>p * 1.5 / 255\<rceil>),
      p / 2]"
    unfolding flatVector_def js_rem_def Let_def s by simp
  have 2: "flatVector p ! 2 = floor_mod (p * 1.5) 255" if "0 \<le> p"
    using that unfolding v3 floor_mod_def by simp
  have 3: "- 255 < flatVector p ! 2 \<and> flatVector p ! 2 \<le> 0" if "p < 0"
  proof -
    define q where "q = p * 1.5 / 255"
    have pq: "p * 1.5 = 255 * q" by (simp add: q_def)
    have c: "of_int \<lceil>q\<rceil> < q + 1" "q \<le> of_int \<lceil>q\<rceil>" by linarith+
    have "flatVector p ! 2 = 255 * q - 255 * of_int \<lceil>q\<rceil>"
      using that unfolding v3 q_def[symmetric] pq by simp
    then show ?thesis using c by linarith
  qed
  show ?thesis using 1 2 3 by blast
qed

theorem flatten_values_witness:
  "flatVector 200 = [200, 55, 45, 100] \<and> floor_mod (200 * 1.5) 255 = 45
   \<and> flatVector (-9) ! 2 = - 13.5"
proof -
  have a: "\<lfloor>200 * 1.5 / 255 :: real\<rfloor> = 1" by (simp add: floor_eq_iff)
  have b: "\<lceil>-9 * 1.5 / 255 :: real\<rceil> = 0" by (simp add: ceiling_eq_iff)
  have f: "flatVector 200 = [200, 55, 45, 100]"
    using flatten_values[of 200] unfolding a by simp
  have "(0::real) \<le> 200"
    by simp
  then have "flatVector 200 ! 2 = floor_mod (200 * 1.5) 255"
    using flatten_values[of 200] by blast
  then have A: "floor_mod (200 * 1.5) 255 = 45"
    unfolding f by simp
  have B: "flatVector (-9) ! 2 = - 13.5"
    using flatten_values[of "-9"] unfolding b by simp
  show ?thesis using f A B by simp
qed

text \<open>
  With \<open>useReLU\<close> off, the patch of ones and the kernel of minus ones pool to \<open>-9\<close>. There
  the third flatten value is \<open>-13.5\<close>, while \<open>(-13.5) mod 255\<close> is \<open>241.5\<close>.
\<close>

theorem flatten_mod_counterexample:
  "pooledValue (featureMap [[1, 1, 1, 1], [1, 1, 1, 1], [1, 1, 1, 1], [1, 1, 1, 1]]
      ((-1, -1, -1), (-1, -1, -1), (-1, -1, -1)) False) ''max'' = - 9
   \<and> flatVector (- 9) ! 2 = - 13.5
   \<and> floor_mod (- 9 * 1.5) 255 = 241.5
   \<and> flatVector (- 9) ! 2 \<noteq> floor_mod (- 9 * 1.5) 255"
proof -
  have fl: "\<lfloor>- 9 * 1.5 / 255 :: real\<rfloor> = - 1" by (simp add: floor_eq_iff)
  have ce: "\<lceil>- 9 * 1.5 / 255 :: real\<rceil> = 0" by (simp add: ceiling_eq_iff)
  have 1: "pooledValue (featureMap [[1, 1, 1, 1], [1, 1, 1, 1], [1, 1, 1, 1], [1, 1, 1, 1]]
      ((-1, -1, -1), (-1, -1, -1), (-1, -1, -1)) False) ''max'' = - 9"
    by (simp add: pooledValue_def featureMap_eq patch_sum_eq sum_lessThan_3 cell_def at3_def)
  have 2: "flatVector (- 9) ! 2 = - 13.5"
    unfolding flatVector_def js_rem_def Let_def using ce by simp
  have 3: "floor_mod (- 9 * 1.5) 255 = 241.5"
    unfolding floor_mod_def fl by simp
  show ?thesis using 1 2 3 by simp
qed

text \<open>
  C2. The feature-map and pooling stages have no configuration error. An unrecognised
  pooling mode is not refused: the pooled value is then the first activated feature-map
  value \<open>map[0][0]\<close>. A patch of the wrong shape is not refused: the cells it lacks in
  the 4\<times>4 grid are read as 0. The feature-map stage fails exactly when the kernel has
  fewer than three rows, with the \<open>TypeError\<close> of \<open>kernel[ky][kx]\<close>. A kernel of three
  rows with a row of fewer than three entries is not refused either: every feature-map
  value is then \<open>NaN\<close>. On a kernel of three rows of at least three entries the two
  stages return what they return on its 3\<times>3 tuple.
\<close>

theorem stages_failure_and_coercion:
  "(featureMap_rt inputPatch kern relu = Inl TypeError \<longleftrightarrow> length kern < 3)
   \<and> featureMap_rt (pad4 inputPatch) kern relu = featureMap_rt inputPatch kern relu
   \<and> (3 \<le> length kern \<and> (\<exists>ky<3. length (kern ! ky) < 3) \<longrightarrow>
        featureMap_rt inputPatch kern relu = Inr nan_fm)
   \<and> (3 \<le> length kern \<and> (\<forall>ky<3. 3 \<le> length (kern ! ky)) \<longrightarrow>
        featureMap_rt inputPatch kern relu =
          Inr (lift_fm (featureMap inputPatch (kernel_tuple kern) relu)))
   \<and> pooledValue_rt (lift_fm (featureMap inputPatch k relu)) poolingMode =
        Some (pooledValue (featureMap inputPatch k relu) poolingMode)
   \<and> (poolingMode \<noteq> ''max'' \<and> poolingMode \<noteq> ''average'' \<longrightarrow>
        pooledValue_rt fm poolingMode = map_rt fm ! 0 ! 0
        \<and> pooledValue (featureMap inputPatch k relu) poolingMode =
            map_fm (featureMap inputPatch k relu) ! 0 ! 0)"
proof -
  have 1: "featureMap_rt inputPatch kern relu = Inl TypeError \<longleftrightarrow> length kern < 3"
  proof
    assume e: "featureMap_rt inputPatch kern relu = Inl TypeError"
    show "length kern < 3"
    proof (rule ccontr)
      assume "\<not> length kern < 3"
      then have "3 \<le> length kern" by simp
      from featureMap_rt_ok[OF this, of inputPatch relu] e show False by simp
    qed
  next
    assume "length kern < 3"
    then show "featureMap_rt inputPatch kern relu = Inl TypeError" by (rule featureMap_rt_fail)
  qed
  have 6: "pooledValue_rt fm poolingMode = map_rt fm ! 0 ! 0
        \<and> pooledValue (featureMap inputPatch k relu) poolingMode =
            map_fm (featureMap inputPatch k relu) ! 0 ! 0"
    if "poolingMode \<noteq> ''max'' \<and> poolingMode \<noteq> ''average''"
    using that by (simp add: pooledValue_rt_def pooledValue_def)
  show ?thesis
    using 1 featureMap_rt_pad4 featureMap_rt_nan featureMap_rt_lift pooledValue_rt_lift 6
    by blast
qed

theorem stages_failure_and_coercion_witness:
  "featureMap_rt [[1, 2], [3, 4]] [[1, 0, 0], [0, 0, 0]] True = Inl TypeError
   \<and> featureMap_rt [[1, 2], [3, 4]] [[1, 0, 0], [0, 0], [0, 0, 0]] True = Inr nan_fm
   \<and> featureMap_rt [[1, 2], [3, 4]] [[1, 0, 0], [0, 0, 0], [0, 0, 0]] False =
       Inr \<lparr>map_rt = [[Some 1, Some 2], [Some 3, Some 4]],
            rawMap_rt = [[Some 1, Some 2], [Some 3, Some 4]]\<rparr>
   \<and> ''median'' \<noteq> ''max'' \<and> ''median'' \<noteq> ''average''
   \<and> pooledValue_rt \<lparr>map_rt = [[Some 1, Some 2], [Some 3, Some 4]],
            rawMap_rt = [[Some 1, Some 2], [Some 3, Some 4]]\<rparr> ''median'' = Some 1"
proof -
  let ?p = "[[1, 2], [3, 4]] :: real list list"
  let ?k2 = "[[1, 0, 0], [0, 0, 0]] :: real list list"
  let ?ks = "[[1, 0, 0], [0, 0], [0, 0, 0]] :: real list list"
  let ?k = "[[1, 0, 0], [0, 0, 0], [0, 0, 0]] :: real list list"
  let ?fm = "\<lparr>map_rt = [[Some 1, Some 2], [Some 3, Some (4 :: real)]],
            rawMap_rt = [[Some 1, Some 2], [Some 3, Some 4]]\<rparr>"
  have A: "featureMap_rt ?p ?k2 True = Inl TypeError"
  proof -
    have "length ?k2 < 3" by simp
    then show ?thesis using stages_failure_and_coercion[of ?p ?k2 True] by blast
  qed
  have B: "featureMap_rt ?p ?ks True = Inr nan_fm"
  proof -
    have "3 \<le> length ?ks" by simp
    moreover have "\<exists>ky<3. length (?ks ! ky) < 3" by (rule exI[of _ 1]) simp
    ultimately show ?thesis using stages_failure_and_coercion[of ?p ?ks True] by blast
  qed
  have C: "featureMap_rt ?p ?k False = Inr ?fm"
  proof -
    have l: "3 \<le> length ?k" by simp
    have r: "\<forall>ky<3. 3 \<le> length (?k ! ky)"
    proof (intro allI impI)
      fix ky :: nat assume "ky < 3"
      then have "ky = 0 \<or> ky = 1 \<or> ky = 2" by auto
      then show "3 \<le> length (?k ! ky)" by auto
    qed
    have "featureMap_rt ?p ?k False = Inr (lift_fm (featureMap ?p (kernel_tuple ?k) False))"
      using stages_failure_and_coercion[of ?p ?k False] l r by blast
    moreover have "lift_fm (featureMap ?p (kernel_tuple ?k) False) = ?fm"
      by (simp add: lift_featureMap patch_sum_eq sum_lessThan_3 cell_def at3_def kernel_tuple_def)
    ultimately show ?thesis by simp
  qed
  have m: "''median'' \<noteq> ''max'' \<and> ''median'' \<noteq> ''average''" by simp
  have "pooledValue_rt ?fm ''median'' = map_rt ?fm ! 0 ! 0"
    using stages_failure_and_coercion[where poolingMode = "''median''" and fm = ?fm] m by blast
  then have D: "pooledValue_rt ?fm ''median'' = Some 1" by simp
  show ?thesis using A B C m D by blast
qed

text \<open>
  The mode \<open>'median'\<close> on a 4\<times>4 patch and a 3\<times>3 kernel gives a feature map and the
  pooled value \<open>map[0][0] = 1\<close>; a 2\<times>2 patch with mode \<open>'max'\<close> gives a feature
  map too, its missing cells read as 0.
\<close>

theorem unknown_mode_counterexample:
  "featureMap_rt [[1, 2, 3, 4], [5, 6, 7, 8], [9, 10, 11, 12], [13, 14, 15, 16]]
       [[1, 0, 0], [0, 0, 0], [0, 0, 0]] True
     = Inr \<lparr>map_rt = [[Some 1, Some 2], [Some 5, Some 6]],
            rawMap_rt = [[Some 1, Some 2], [Some 5, Some 6]]\<rparr>
   \<and> pooledValue_rt \<lparr>map_rt = [[Some 1, Some 2], [Some 5, Some 6]],
            rawMap_rt = [[Some 1, Some 2], [Some 5, Some 6]]\<rparr> ''median'' = Some 1
   \<and> featureMap_rt [[1, 2], [3, 4]] [[0, 0, 0], [0, 0, 0], [0, 0, 1]] True
     = Inr \<lparr>map_rt = [[Some 0, Some 0], [Some 0, Some 0]],
            rawMap_rt = [[Some 0, Some 0], [Some 0, Some 0]]\<rparr>
   \<and> pooledValue_rt \<lparr>map_rt = [[Some 0, Some 0], [Some 0, Some 0]],
            rawMap_rt = [[Some 0, Some 0], [Some 0, Some 0]]\<rparr> ''max'' = Some 0"
  by (simp add: featureMap_rt_ok num_sum_def upt_0_3 cell_def add_num_def mul_num_def
      pooledValue_rt_def Math_max_num_def)

text \<open>
  C8. For a flatten vector of four numbers the dense stage returns four logits,
  \<open>logits[c] = bias[c] + \<Sum>\<^sub>i flatten[i] * weight[i][c]\<close>, with the constant weights
  and biases of the component.
\<close>

theorem dense_layer:
  assumes "length fv = 4"
  shows "length (logits fv) = 4
    \<and> (\<forall>c<4. logits fv ! c = fcBiases ! c + (\<Sum>i<4. fv ! i * fcWeights ! i ! c))
    \<and> logits fv =
        [10 + (fv ! 0 * 0.8 + fv ! 1 * (- 0.4) + fv ! 2 * 0.5 + fv ! 3 * 0.1),
         - 5 + (fv ! 0 * (- 0.5) + fv ! 1 * 0.9 + fv ! 2 * (- 0.2) + fv ! 3 * 0.3),
         0 + (fv ! 0 * 0.2 + fv ! 1 * (- 0.1) + fv ! 2 * 0.8 + fv ! 3 * 0.1),
         5 + (fv ! 0 * 0.1 + fv ! 1 * (- 0.3) + fv ! 2 * 0.2 + fv ! 3 * 0.9)]"
proof -
  have 1: "length (logits fv) = 4" by (simp add: logits_eq)
  have 2: "\<forall>c<4. logits fv ! c = fcBiases ! c + (\<Sum>i<4. fv ! i * fcWeights ! i ! c)"
  proof (intro allI impI)
    fix c :: nat assume "c < 4"
    then consider "c = 0" | "c = 1" | "c = 2" | "c = 3" by linarith
    then show "logits fv ! c = fcBiases ! c + (\<Sum>i<4. fv ! i * fcWeights ! i ! c)"
      by cases (simp_all add: logits_eq)
  qed
  have 3: "logits fv =
        [10 + (fv ! 0 * 0.8 + fv ! 1 * (- 0.4) + fv ! 2 * 0.5 + fv ! 3 * 0.1),
         - 5 + (fv ! 0 * (- 0.5) + fv ! 1 * 0.9 + fv ! 2 * (- 0.2) + fv ! 3 * 0.3),
         0 + (fv ! 0 * 0.2 + fv ! 1 * (- 0.1) + fv ! 2 * 0.8 + fv ! 3 * 0.1),
         5 + (fv ! 0 * 0.1 + fv ! 1 * (- 0.3) + fv ! 2 * 0.2 + fv ! 3 * 0.9)]"
    by (simp add: logits_eq sum_lessThan_4 fcWeights_def fcBiases_def)
  show ?thesis using 1 2 3 by blast
qed

theorem dense_layer_witness:
  "length [- 9, 264, - 13.5, - 4.5 :: real] = 4
   \<and> logits [- 9, 264, - 13.5, - 4.5] = [- 110, 238.45, - 39.45, - 81.85]"
proof -
  have l: "length [- 9, 264, - 13.5, - 4.5 :: real] = 4" by simp
  show ?thesis using dense_layer[OF l] by simp
qed

text \<open>
  C6. For four logits, with \<open>m\<close> their maximum and \<open>e[c] = exp((logits[c] - m) / 100)\<close>,
  the softmax stage returns \<open>100 * e[c] / \<Sum> e\<close> for each class; the four
  probabilities sum to 100 and each lies in \<open>[0, 100]\<close>.
\<close>

theorem softmax_percent:
  assumes "length ls = 4"
  shows "length (probabilities ls) = 4
    \<and> (\<forall>c<4. probabilities ls ! c =
          100 * exp ((ls ! c - Max (set ls)) / 100) / (\<Sum>i<4. exp ((ls ! i - Max (set ls)) / 100)))
    \<and> sum_list (probabilities ls) = 100
    \<and> (\<forall>c<4. 0 \<le> probabilities ls ! c \<and> probabilities ls ! c \<le> 100)"
proof -
  obtain a b c d where ls: "ls = [a, b, c, d]" using assms by (rule length_4E)
  define m where "m = max a (max b (max c d))"
  define ea eb ec ed where "ea = exp ((a - m) / 100)" and "eb = exp ((b - m) / 100)"
    and "ec = exp ((c - m) / 100)" and "ed = exp ((d - m) / 100)"
  define s where "s = ea + eb + ec + ed"
  have pos: "0 < ea" "0 < eb" "0 < ec" "0 < ed" by (simp_all add: ea_def eb_def ec_def ed_def)
  then have s0: "0 < s" by (simp add: s_def)
  have M: "Max (set ls) = m" unfolding ls m_def by (rule Max_set_4)
  have P: "probabilities ls = [100 * ea / s, 100 * eb / s, 100 * ec / s, 100 * ed / s]"
    unfolding ls probabilities_4 s_def ea_def eb_def ec_def ed_def m_def by simp
  have S: "(\<Sum>i<4. exp ((ls ! i - Max (set ls)) / 100)) = s"
    unfolding M sum_lessThan_4 by (simp add: ls s_def ea_def eb_def ec_def ed_def)
  have 1: "length (probabilities ls) = 4" unfolding P by simp
  have 2: "\<forall>c<4. probabilities ls ! c =
          100 * exp ((ls ! c - Max (set ls)) / 100) / (\<Sum>i<4. exp ((ls ! i - Max (set ls)) / 100))"
  proof (intro allI impI)
    fix k :: nat assume "k < 4"
    then consider "k = 0" | "k = 1" | "k = 2" | "k = 3" by linarith
    then show "probabilities ls ! k =
          100 * exp ((ls ! k - Max (set ls)) / 100) / (\<Sum>i<4. exp ((ls ! i - Max (set ls)) / 100))"
      unfolding S unfolding M P by cases (simp_all add: ls ea_def eb_def ec_def ed_def)
  qed
  have "100 * ea / s + 100 * eb / s + 100 * ec / s + 100 * ed / s = 100 * (ea + eb + ec + ed) / s"
    by (simp add: add_divide_distrib distrib_left)
  also have "\<dots> = 100" using s0 unfolding s_def[symmetric] by simp
  finally have 3: "sum_list (probabilities ls) = 100"
    unfolding P by simp
  have le: "ea \<le> s" "eb \<le> s" "ec \<le> s" "ed \<le> s" using pos unfolding s_def by linarith+
  have 4: "\<forall>c<4. 0 \<le> probabilities ls ! c \<and> probabilities ls ! c \<le> 100"
  proof (intro allI impI)
    fix k :: nat assume "k < 4"
    then consider "k = 0" | "k = 1" | "k = 2" | "k = 3" by linarith
    then show "0 \<le> probabilities ls ! k \<and> probabilities ls ! k \<le> 100"
      unfolding P
      using softmax_entry[OF pos(1) le(1)] softmax_entry[OF pos(2) le(2)]
        softmax_entry[OF pos(3) le(3)] softmax_entry[OF pos(4) le(4)]
      by cases simp_all
  qed
  show ?thesis using 1 2 3 4 by blast
qed

theorem softmax_percent_witness:
  "length [7, 7, 7, 7 :: real] = 4
   \<and> probabilities [7, 7, 7, 7] ! 0 = 25
   \<and> sum_list (probabilities [7, 7, 7, 7]) = 100"
proof -
  have l: "length [7, 7, 7, 7 :: real] = 4" by simp
  have z: "(0::nat) < 4" by simp
  have "probabilities [7, 7, 7, 7] ! 0 =
      100 * exp (([7, 7, 7, 7] ! 0 - Max (set [7, 7, 7, 7 :: real])) / 100)
        / (\<Sum>i<4. exp (([7, 7, 7, 7] ! i - Max (set [7, 7, 7, 7 :: real])) / 100))"
    using softmax_percent[OF l] z by blast
  then have "probabilities [7, 7, 7, 7] ! 0 = 25"
    by (simp add: sum_lessThan_4)
  moreover have "sum_list (probabilities [7, 7, 7, 7]) = 100"
    using softmax_percent[OF l] by blast
  ultimately show ?thesis by simp
qed

text \<open>
  C10. With \<open>useGrayscale\<close> on, whatever \<open>useReLU\<close> and \<open>normalize\<close> are, the R, G and
  B bytes of every pixel of the result are equal: the three stores convert the same
  average, and the normalisation pass maps equal bytes to equal bytes.
\<close>

theorem grayscale_channels_equal:
  assumes "wf_image img" "y < height img" "x < width img" "useGrayscale options"
  shows "data (applyConvolution img kern options) ! ((y * width img + x) * 4)
       = data (applyConvolution img kern options) ! ((y * width img + x) * 4 + 1)
     \<and> data (applyConvolution img kern options) ! ((y * width img + x) * 4 + 1)
       = data (applyConvolution img kern options) ! ((y * width img + x) * 4 + 2)"
proof -
  define pre where "pre = conv_pass img kern options"
  define i where "i = (y * width img + x) * 4"
  define v where "v = toUint8Clamp (at3 (pixel_value img kern options y x) 0)"
  have len: "length pre = 4 * (width img * height img)"
    using assms(1) by (simp add: pre_def conv_pass_length wf_image_def)
  have pre: "pre ! (i + c) = v" if "c < 3" for c
  proof -
    have "c < 4" "c \<noteq> 3" using that by simp_all
    then show ?thesis
      unfolding pre_def i_def v_def
      using conv_pass_pixel[OF assms(1-3), of c kern options]
      by (simp only: grayscale_pixel_value[OF assms(4), of img kern y x c] if_False)
  qed
  have jl: "i + c < length pre" if "c < 3" for c
  proof -
    have "c < 4" using that by simp
    then show ?thesis
      unfolding i_def pre_def conv_pass_length by (rule byte_index_less[OF assms(1-3)])
  qed
  have m: "(i + c) mod 4 \<noteq> 3" if "c < 3" for c
  proof -
    have "c < 4" using that by simp
    then have "(i + c) mod 4 = c" unfolding i_def using div4[of c "y * width img + x"] by blast
    then show ?thesis using that by simp
  qed
  have post: "\<exists>F. \<forall>c<3. normalize_pass pre ! (i + c) = F (pre ! (i + c))"
  proof -
    obtain mn mx where mm: "scan_min_max pre = (mn, mx)" by (cases "scan_min_max pre") auto
    have "normalize_pass pre ! (i + c) =
        (if \<not> mx - mn > 0 then pre ! (i + c)
         else toUint8Clamp (((real (unat (pre ! (i + c))) - mn) / (mx - mn)) * 255))"
      if "c < 3" for c
      using normalize_pass_nth[OF len jl[OF that] mm] m[OF that] by simp
    then show ?thesis
      by (intro exI[of _ "\<lambda>u. if \<not> mx - mn > 0 then u
         else toUint8Clamp (((real (unat u) - mn) / (mx - mn)) * 255)"]) simp
  qed
  have "\<exists>G. \<forall>c<3. data (applyConvolution img kern options) ! (i + c) = G (pre ! (i + c))"
  proof (cases "normalize_opt options")
    case False
    then have "data (applyConvolution img kern options) = pre"
      by (simp add: applyConvolution_data pre_def)
    then show ?thesis by (intro exI[of _ "\<lambda>u. u"]) simp
  next
    case True
    then have "data (applyConvolution img kern options) = normalize_pass pre"
      by (simp add: applyConvolution_data pre_def)
    then show ?thesis using post by simp
  qed
  then obtain G where G: "\<And>c. c < 3 \<Longrightarrow> data (applyConvolution img kern options) ! (i + c) = G v"
    using pre by auto
  have "data (applyConvolution img kern options) ! (i + 0) = G v"
    "data (applyConvolution img kern options) ! (i + 1) = G v"
    "data (applyConvolution img kern options) ! (i + 2) = G v"
    by (rule G, simp)+
  then show ?thesis unfolding i_def by simp
qed

theorem grayscale_channels_equal_witness:
  "wf_image \<lparr>width = 2, height = 1, data = [1, 2, 3, 0, 10, 20, 30, 7]\<rparr>
   \<and> data (applyConvolution \<lparr>width = 2, height = 1, data = [1, 2, 3, 0, 10, 20, 30, 7]\<rparr>
        ((0, 0, 0), (0, 1, 0), (0, 0, 0))
        \<lparr>useGrayscale = True, useReLU = False, normalize_opt = True\<rparr>) ! 4
     = data (applyConvolution \<lparr>width = 2, height = 1, data = [1, 2, 3, 0, 10, 20, 30, 7]\<rparr>
        ((0, 0, 0), (0, 1, 0), (0, 0, 0))
        \<lparr>useGrayscale = True, useReLU = False, normalize_opt = True\<rparr>) ! 6"
proof -
  let ?img = "\<lparr>width = 2, height = 1, data = [1, 2, 3, 0, 10, 20, 30, 7]\<rparr>"
  let ?o = "\<lparr>useGrayscale = True, useReLU = False, normalize_opt = True\<rparr>"
  have hyps: "wf_image ?img" "0 < height ?img" "1 < width ?img" "useGrayscale ?o"
    by (simp_all add: wf_image_def)
  have i: "(0 * width ?img + 1) * 4 = 4" "(0 * width ?img + 1) * 4 + 1 = 5"
    "(0 * width ?img + 1) * 4 + 2 = 6"
    by simp_all
  show ?thesis
    using grayscale_channels_equal[OF hyps, of "((0, 0, 0), (0, 1, 0), (0, 0, 0))"] hyps(1)
    unfolding i by simp
qed

text \<open>
  C5. For a non-empty image and \<open>normalize\<close> on: when the R, G and B bytes before the
  normalisation pass are all equal the pass leaves the buffer as it is; otherwise the least
  R, G, B byte of the result is 0 and the greatest is 255.
\<close>

theorem normalize_full_range:
  assumes "wf_image img" "0 < width img" "0 < height img" "normalize_opt options"
  shows "let pre = data (applyConvolution img kern (options\<lparr>normalize_opt := False\<rparr>));
             post = data (applyConvolution img kern options)
         in if flat_output pre then post = pre
            else Min (set (rgb_values post)) = 0 \<and> Max (set (rgb_values post)) = 255"
proof -
  define pre where "pre = conv_pass img kern options"
  have p1: "data (applyConvolution img kern (options\<lparr>normalize_opt := False\<rparr>)) = pre"
    by (simp add: applyConvolution_data conv_pass_normalize_irrelevant pre_def)
  have p2: "data (applyConvolution img kern options) = normalize_pass pre"
    using assms(4) by (simp add: applyConvolution_data pre_def)
  have len: "length pre = 4 * (width img * height img)"
    using assms(1) by (simp add: pre_def conv_pass_length wf_image_def)
  have n: "0 < width img * height img" using assms(2,3) by simp
  have "normalize_pass pre = pre" if "flat_output pre"
    using normalize_pass_flat[OF len n that] .
  moreover have "Min (set (rgb_values (normalize_pass pre))) = 0
      \<and> Max (set (rgb_values (normalize_pass pre))) = 255" if "\<not> flat_output pre"
  proof -
    have m: "0 \<in> set (rgb_values (normalize_pass pre))" "255 \<in> set (rgb_values (normalize_pass pre))"
      using normalize_pass_range[OF len that] by simp_all
    have "Min (set (rgb_values (normalize_pass pre))) = 0"
      using m(1) by (intro Min_eqI) simp_all
    moreover have "Max (set (rgb_values (normalize_pass pre))) = 255"
      using m(2) by (intro Max_eqI) (simp_all add: byte_le_255)
    ultimately show ?thesis by simp
  qed
  ultimately show ?thesis unfolding p1 p2 Let_def by simp
qed

theorem normalize_full_range_witness:
  "wf_image \<lparr>width = 2, height = 1, data = [1, 2, 3, 0, 10, 20, 30, 7]\<rparr>
   \<and> data (applyConvolution \<lparr>width = 2, height = 1, data = [1, 2, 3, 0, 10, 20, 30, 7]\<rparr>
        IDENTITY_KERNEL \<lparr>useGrayscale = False, useReLU = True, normalize_opt = False\<rparr>)
       = [1, 2, 3, 255, 10, 20, 30, 255]
   \<and> \<not> flat_output [1, 2, 3, 255, 10, 20, 30, 255]
   \<and> Min (set (rgb_values (data (applyConvolution
        \<lparr>width = 2, height = 1, data = [1, 2, 3, 0, 10, 20, 30, 7]\<rparr>
        IDENTITY_KERNEL \<lparr>useGrayscale = False, useReLU = True, normalize_opt = True\<rparr>)))) = 0
   \<and> Max (set (rgb_values (data (applyConvolution
        \<lparr>width = 2, height = 1, data = [1, 2, 3, 0, 10, 20, 30, 7]\<rparr>
        IDENTITY_KERNEL \<lparr>useGrayscale = False, useReLU = True, normalize_opt = True\<rparr>)))) = 255
   \<and> wf_image \<lparr>width = 1, height = 1, data = [5, 5, 5, 9]\<rparr>
   \<and> flat_output [5, 5, 5, 255]
   \<and> data (applyConvolution \<lparr>width = 1, height = 1, data = [5, 5, 5, 9]\<rparr>
        IDENTITY_KERNEL \<lparr>useGrayscale = False, useReLU = True, normalize_opt = True\<rparr>)
       = [5, 5, 5, 255]"
proof -
  let ?img = "\<lparr>width = 2, height = 1, data = [1, 2, 3, 0, 10, 20, 30, 7]\<rparr>"
  let ?img2 = "\<lparr>width = 1, height = 1, data = [5, 5, 5, 9]\<rparr>"
  let ?o = "\<lparr>useGrayscale = False, useReLU = True, normalize_opt = True\<rparr>"
  let ?o' = "\<lparr>useGrayscale = False, useReLU = True, normalize_opt = False\<rparr>"
  have o: "?o\<lparr>normalize_opt := False\<rparr> = ?o'" by simp
  have hyps: "wf_image ?img" "0 < width ?img" "0 < height ?img" "normalize_opt ?o"
    by (simp_all add: wf_image_def)
  have hyps2: "wf_image ?img2" "0 < width ?img2" "0 < height ?img2"
    by (simp_all add: wf_image_def)
  have pre: "data (applyConvolution ?img IDENTITY_KERNEL ?o') = [1, 2, 3, 255, 10, 20, 30, 255]"
    by (simp add: applyConvolution_def conv_pass_def pixel_body_def pixel_value_def
      accumulate_def tap_def IDENTITY_KERNEL_def at3_def rd_def activation_def grayscale_def
      store_pixel_def toUint8Clamp_def upt_0_2)
  have pre2: "data (applyConvolution ?img2 IDENTITY_KERNEL ?o') = [5, 5, 5, 255]"
    by (simp add: applyConvolution_def conv_pass_def pixel_body_def pixel_value_def
      accumulate_def tap_def IDENTITY_KERNEL_def at3_def rd_def activation_def grayscale_def
      store_pixel_def toUint8Clamp_def)
  have nf: "\<not> flat_output [1, 2, 3, 255, 10, 20, 30, 255]"
  proof -
    let ?d = "[1, 2, 3, 255, 10, 20, 30, 255] :: 8 word list"
    have "\<exists>i<length ?d. \<exists>j<length ?d. i mod 4 \<noteq> 3 \<and> j mod 4 \<noteq> 3 \<and> ?d ! i \<noteq> ?d ! j"
      by (rule exI[of _ 0], simp, rule exI[of _ 1], simp)
    then show ?thesis unfolding flat_output_iff by blast
  qed
  have fl: "flat_output [5, 5, 5, 255]"
  proof -
    let ?d = "[5, 5, 5, 255] :: 8 word list"
    have "?d ! i = 5" if "i < length ?d" "i mod 4 \<noteq> 3" for i
    proof -
      from that have "i = 0 \<or> i = 1 \<or> i = 2" by auto
      then show ?thesis by auto
    qed
    then show ?thesis unfolding flat_output_iff by metis
  qed
  have A: "Min (set (rgb_values (data (applyConvolution ?img IDENTITY_KERNEL ?o)))) = 0
      \<and> Max (set (rgb_values (data (applyConvolution ?img IDENTITY_KERNEL ?o)))) = 255"
    using normalize_full_range[OF hyps, of IDENTITY_KERNEL] nf unfolding o pre Let_def by simp
  have B: "data (applyConvolution ?img2 IDENTITY_KERNEL ?o) = [5, 5, 5, 255]"
    using normalize_full_range[OF hyps2 hyps(4), of IDENTITY_KERNEL] fl unfolding o pre2 Let_def
    by simp
  show ?thesis using hyps(1) hyps2(1) pre nf fl A B by simp
qed

end
